theory Spec2Isabelle
  imports Main "HOL-Library.AList"
begin

section \<open>Python values, objects and the store\<close>

text \<open>
  The JSON response parser of \<^verbatim>\<open>solrpy/core.py\<close> rewrites a decoded JSON document in
  place.  Decoded dictionaries and lists are mutable Python objects that are reached through
  references, so they live in a store: a value is a scalar or a reference \<open>VRef a\<close> to the
  object at address \<open>a\<close>.  Two references to the same address are the same object, as in
  Python.  Strings are immutable and are values.  \<open>VOther t n\<close> stands for any other
  immutable object that has no \<^verbatim>\<open>items\<close>, \<^verbatim>\<open>values\<close> or \<^verbatim>\<open>pop\<close> attribute and cannot be
  subscripted (a float, a \<^verbatim>\<open>datetime\<close>, a function); \<open>t\<close> is its truth value and \<open>n\<close> tells
  such objects apart.  Tuples are not produced by a JSON decoder and are not modelled.

  A dictionary is an association list in insertion order whose keys are strings or integers
  (JSON produces string keys only); the keys of a Python dictionary are distinct.  A
  character of a \<open>string\<close> stands for one code point.
\<close>

datatype pykey = KStr string | KInt int

datatype pyval =
    VNone
  | VBool bool
  | VInt int
  | VStr string
  | VOther bool nat
  | VRef nat

datatype pyobj = ODict "(pykey \<times> pyval) list" | OList "pyval list"

type_synonym store = "nat \<Rightarrow> pyobj"

text \<open>
  Exceptions are values.  \<open>TranslationError\<close> is the typed error of the specification (a
  wrapped failure with the offending path and key); the source never constructs it.
\<close>

datatype pyerror =
    KeyError
  | IndexError
  | TypeError
  | AttributeError
  | ValueError
  | TranslationError pyerror "pykey list" pykey
  | OtherError nat

text \<open>
  A generator is modelled by what it yields before it stops, and by the exception that stops
  it, if one does.  A plain list or tuple result is a generator that stops without exception.
\<close>

type_synonym 'a gen = "'a list \<times> pyerror option"

subsection \<open>Subscripting\<close>

text \<open>Python's normalisation of a sequence index: a negative index counts from the end.\<close>

definition py_index :: "int \<Rightarrow> nat \<Rightarrow> nat option" where
  "py_index i n =
     (if 0 \<le> i \<and> i < int n then Some (nat i)
      else if - int n \<le> i \<and> i < 0 then Some (nat (int n + i))
      else None)"

text \<open>\<^verbatim>\<open>obj[key]\<close>\<close>

definition getitem :: "store \<Rightarrow> pyval \<Rightarrow> pykey \<Rightarrow> pyerror + pyval" where
  "getitem h obj key =
     (case obj of
        VRef a \<Rightarrow>
          (case h a of
             ODict d \<Rightarrow> (case map_of d key of None \<Rightarrow> Inl KeyError | Some v \<Rightarrow> Inr v)
           | OList xs \<Rightarrow>
               (case key of
                  KStr s \<Rightarrow> Inl TypeError
                | KInt i \<Rightarrow>
                    (case py_index i (length xs) of
                       None \<Rightarrow> Inl IndexError
                     | Some j \<Rightarrow> Inr (xs ! j))))
      | VStr s \<Rightarrow>
          (case key of
             KStr k \<Rightarrow> Inl TypeError
           | KInt i \<Rightarrow>
               (case py_index i (length s) of
                  None \<Rightarrow> Inl IndexError
                | Some j \<Rightarrow> Inr (VStr [s ! j])))
      | _ \<Rightarrow> Inl TypeError)"

text \<open>\<^verbatim>\<open>obj[key] = v\<close>: the object is changed in place, that is, in the store.\<close>

definition setitem :: "store \<Rightarrow> pyval \<Rightarrow> pykey \<Rightarrow> pyval \<Rightarrow> pyerror + store" where
  "setitem h obj key v =
     (case obj of
        VRef a \<Rightarrow>
          (case h a of
             ODict d \<Rightarrow> Inr (h(a := ODict (AList.update key v d)))
           | OList xs \<Rightarrow>
               (case key of
                  KStr s \<Rightarrow> Inl TypeError
                | KInt i \<Rightarrow>
                    (case py_index i (length xs) of
                       None \<Rightarrow> Inl IndexError
                     | Some j \<Rightarrow> Inr (h(a := OList (xs[j := v]))))))
      | _ \<Rightarrow> Inl TypeError)"

section \<open>Path components\<close>

text \<open>
  An element of a path given by the caller is \<^verbatim>\<open>None\<close>, a function of a key, or a string or an
  integer, as the documentation of the class lists them.  The function may raise; the truth
  value of what it returns is all that is used.  The test \<^verbatim>\<open>isinstance(component,
  collections.Callable)\<close> is taken on an interpreter that has this name (it is an alias of
  \<^verbatim>\<open>collections.abc.Callable\<close> up to Python 3.9).
\<close>

datatype pathspec =
    PNone
  | PCallable "pykey \<Rightarrow> pyerror + bool"
  | PKey pykey

datatype component =
    Wildcard
  | Attribute pykey
  | Matcher "pykey \<Rightarrow> pyerror + bool"

text \<open>The body of the loop of \<^verbatim>\<open>compile_path\<close>: the chain of \<^verbatim>\<open>if\<close>/\<^verbatim>\<open>elif\<close>/\<^verbatim>\<open>else\<close>.\<close>

fun compile_component :: "pathspec \<Rightarrow> component" where
  "compile_component PNone = Wildcard"
| "compile_component (PCallable cb) = Matcher cb"
| "compile_component (PKey val) = Attribute val"

text \<open>\<^verbatim>\<open>for component in reversed(path): res.append(...)\<close>\<close>

fun compile_loop :: "component list \<Rightarrow> pathspec list \<Rightarrow> component list" where
  "compile_loop res [] = res"
| "compile_loop res (component # rest) = compile_loop (res @ [compile_component component]) rest"

definition compile_path :: "pathspec list \<Rightarrow> component list" where
  "compile_path path = compile_loop [] (rev path)"

subsection \<open>The base class\<close>

text \<open>\<^verbatim>\<open>enumerate(obj)\<close> of a list.\<close>

definition enumerate_list :: "pyval list \<Rightarrow> (pykey \<times> pyval) list" where
  "enumerate_list xs = zip (map (\<lambda>i. KInt (int i)) [0..<length xs]) xs"

text \<open>
  \<^verbatim>\<open>PathComponent.items\<close>: the entries of a dictionary (a snapshot list), the enumeration of
  a list, and the empty tuple for anything else.  It returns a sequence, not a generator, and
  so does \<^verbatim>\<open>Wildcard.values\<close>.
\<close>

definition PathComponent_items :: "store \<Rightarrow> pyval \<Rightarrow> (pykey \<times> pyval) list" where
  "PathComponent_items h obj =
     (case obj of
        VRef a \<Rightarrow> (case h a of ODict d \<Rightarrow> d | OList xs \<Rightarrow> enumerate_list xs)
      | _ \<Rightarrow> [])"

subsection \<open>Wildcard, Attribute, Matcher\<close>

definition Wildcard_values :: "store \<Rightarrow> pyval \<Rightarrow> pyval list" where
  "Wildcard_values h obj =
     (case obj of
        VRef a \<Rightarrow> (case h a of ODict d \<Rightarrow> map snd d | OList xs \<Rightarrow> xs)
      | _ \<Rightarrow> [])"

text \<open>The \<^verbatim>\<open>except (KeyError, IndexError, TypeError)\<close> clause.\<close>

definition caught :: "pyerror \<Rightarrow> bool" where
  "caught e = (e = KeyError \<or> e = IndexError \<or> e = TypeError)"

definition Attribute_values :: "pykey \<Rightarrow> store \<Rightarrow> pyval \<Rightarrow> pyval gen" where
  "Attribute_values val h obj =
     (case getitem h obj val of
        Inr v \<Rightarrow> ([v], None)
      | Inl e \<Rightarrow> if caught e then ([], None) else ([], Some e))"

definition Attribute_items :: "pykey \<Rightarrow> store \<Rightarrow> pyval \<Rightarrow> (pykey \<times> pyval) gen" where
  "Attribute_items val h obj =
     (case getitem h obj val of
        Inr v \<Rightarrow> ([(val, v)], None)
      | Inl e \<Rightarrow> if caught e then ([], None) else ([], Some e))"

text \<open>
  The loop of \<^verbatim>\<open>Matcher.items\<close> over the pairs of the base class: a pair is yielded when the
  callback holds of its key, and an exception of the callback ends the generator.
\<close>

fun Matcher_loop :: "(pykey \<Rightarrow> pyerror + bool) \<Rightarrow> (pykey \<times> pyval) list \<Rightarrow> (pykey \<times> pyval) gen" where
  "Matcher_loop cb [] = ([], None)"
| "Matcher_loop cb ((k, v) # rest) =
     (case cb k of
        Inl e \<Rightarrow> ([], Some e)
      | Inr b \<Rightarrow>
          (case Matcher_loop cb rest of
             (ys, stop) \<Rightarrow> (if b then (k, v) # ys else ys, stop)))"

definition Matcher_items :: "(pykey \<Rightarrow> pyerror + bool) \<Rightarrow> store \<Rightarrow> pyval \<Rightarrow> (pykey \<times> pyval) gen" where
  "Matcher_items cb h obj = Matcher_loop cb (PathComponent_items h obj)"

text \<open>Method dispatch: \<^verbatim>\<open>component.items(obj)\<close>.\<close>

fun component_items :: "component \<Rightarrow> store \<Rightarrow> pyval \<Rightarrow> (pykey \<times> pyval) gen" where
  "component_items Wildcard h obj = (PathComponent_items h obj, None)"
| "component_items (Attribute val) h obj = Attribute_items val h obj"
| "component_items (Matcher cb) h obj = Matcher_items cb h obj"

text \<open>
  \<^verbatim>\<open>PathComponent.values\<close>, which only \<^verbatim>\<open>Matcher\<close> inherits: the second half of each pair
  of \<^verbatim>\<open>self.items(obj)\<close>.
\<close>

definition PathComponent_values :: "component \<Rightarrow> store \<Rightarrow> pyval \<Rightarrow> pyval gen" where
  "PathComponent_values self h obj =
     (case component_items self h obj of (kvs, stop) \<Rightarrow> (map snd kvs, stop))"

text \<open>Method dispatch: \<^verbatim>\<open>component.values(obj)\<close>.\<close>

fun component_values :: "component \<Rightarrow> store \<Rightarrow> pyval \<Rightarrow> pyval gen" where
  "component_values Wildcard h obj = (Wildcard_values h obj, None)"
| "component_values (Attribute val) h obj = Attribute_values val h obj"
| "component_values (Matcher cb) h obj = PathComponent_values (Matcher cb) h obj"

section \<open>The translator\<close>

text \<open>
  A transform is a function of the value it replaces.  It may read the store (the length of
  a list) and it may raise.  It is taken not to change the store: the result of a transform
  that mutates the document it is applied to is not described here.  Under this reading the
  lazy \<^verbatim>\<open>enumerate(obj)\<close> of a list yields the same pairs as its enumeration before the loop,
  since the loop assigns only to positions it has passed.
\<close>

type_synonym transform = "store \<Rightarrow> pyval \<Rightarrow> pyerror + pyval"

text \<open>\<^verbatim>\<open>cpath[ind]\<close> on a tuple.\<close>

definition tuple_get :: "'a list \<Rightarrow> int \<Rightarrow> pyerror + 'a" where
  "tuple_get cpath ind =
     (case py_index ind (length cpath) of None \<Rightarrow> Inl IndexError | Some j \<Rightarrow> Inr (cpath ! j))"

text \<open>\<^verbatim>\<open>for obj in objects: new_objects.extend(component.values(obj))\<close>\<close>

fun extend_values :: "component \<Rightarrow> store \<Rightarrow> pyval list \<Rightarrow> pyval list \<Rightarrow> pyerror + pyval list" where
  "extend_values component h new_objects [] = Inr new_objects"
| "extend_values component h new_objects (obj # objects) =
     (case component_values component h obj of
        (vs, None) \<Rightarrow> extend_values component h (new_objects @ vs) objects
      | (vs, Some e) \<Rightarrow> Inl e)"

text \<open>
  The \<^verbatim>\<open>while ind:\<close> loop of \<^verbatim>\<open>_translate\<close>.  It ends when \<open>ind\<close> is zero; a negative \<open>ind\<close>
  is true as well, and the loop then ends by the \<^verbatim>\<open>IndexError\<close> of \<^verbatim>\<open>cpath[ind]\<close>.
\<close>

function descend :: "store \<Rightarrow> component list \<Rightarrow> int \<Rightarrow> pyval list \<Rightarrow> pyerror + pyval list" where
  "descend h cpath ind objects =
     (if ind \<noteq> 0 then
        (case tuple_get cpath ind of
           Inl e \<Rightarrow> Inl e
         | Inr component \<Rightarrow>
             (case extend_values component h [] objects of
                Inl e \<Rightarrow> Inl e
              | Inr new_objects \<Rightarrow> descend h cpath (ind - 1) new_objects))
      else Inr objects)"
  by pat_completeness auto
termination
  by (relation "measure (\<lambda>(h, cpath, ind, objects). nat (ind + int (length cpath) + 1))")
     (auto simp: tuple_get_def py_index_def split: if_splits)

declare descend.simps [simp del]

text \<open>
  \<^verbatim>\<open>for key, val in ...: obj[key] = callback(val)\<close> over the pairs that the leaf component
  yields for one object.  The store is the one left by the assignments made so far.
\<close>

fun assign_items :: "transform \<Rightarrow> pyval \<Rightarrow> store \<Rightarrow> (pykey \<times> pyval) list \<Rightarrow> (pyerror \<times> store) + store" where
  "assign_items callback obj h [] = Inr h"
| "assign_items callback obj h ((key, val) # rest) =
     (case callback h val of
        Inl e \<Rightarrow> Inl (e, h)
      | Inr v \<Rightarrow>
          (case setitem h obj key v of
             Inl e \<Rightarrow> Inl (e, h)
           | Inr h' \<Rightarrow> assign_items callback obj h' rest))"

text \<open>
  The inner loop for one object: the pairs yielded by the generator are assigned, and an
  exception that ends the generator is raised after the pairs before it have been assigned.
\<close>

definition rewrite_object :: "transform \<Rightarrow> component \<Rightarrow> store \<Rightarrow> pyval \<Rightarrow> (pyerror \<times> store) + store" where
  "rewrite_object callback component h obj =
     (case component_items component h obj of
        (kvs, stop) \<Rightarrow>
          (case assign_items callback obj h kvs of
             Inl x \<Rightarrow> Inl x
           | Inr h' \<Rightarrow> (case stop of None \<Rightarrow> Inr h' | Some e \<Rightarrow> Inl (e, h'))))"

text \<open>\<^verbatim>\<open>for obj in objects: for key, val in cpath[ind].items(obj): ...\<close>\<close>

fun rewrite_objects :: "transform \<Rightarrow> component list \<Rightarrow> int \<Rightarrow> store \<Rightarrow> pyval list \<Rightarrow> (pyerror \<times> store) + store" where
  "rewrite_objects callback cpath ind h [] = Inr h"
| "rewrite_objects callback cpath ind h (obj # objects) =
     (case tuple_get cpath ind of
        Inl e \<Rightarrow> Inl (e, h)
      | Inr component \<Rightarrow>
          (case rewrite_object callback component h obj of
             Inl x \<Rightarrow> Inl x
           | Inr h' \<Rightarrow> rewrite_objects callback cpath ind h' objects))"

text \<open>
  \<^verbatim>\<open>_translate(objects, cpath, callback)\<close>.  The result is the store after the pass, or the
  exception together with the store as the pass left it.  The descent changes nothing.
\<close>

definition translate_pass :: "store \<Rightarrow> pyval list \<Rightarrow> component list \<Rightarrow> transform \<Rightarrow> (pyerror \<times> store) + store" where
  "translate_pass h objects cpath callback =
     (case descend h cpath (int (length cpath) - 1) objects of
        Inl e \<Rightarrow> Inl (e, h)
      | Inr objects' \<Rightarrow> rewrite_objects callback cpath 0 h objects')"

text \<open>\<^verbatim>\<open>translate(*objects)\<close>: one pass for each translator of the parser, in their order.\<close>

fun translate :: "(component list \<times> transform) list \<Rightarrow> store \<Rightarrow> pyval list \<Rightarrow> (pyerror \<times> store) + store" where
  "translate [] h objects = Inr h"
| "translate ((cpath, callback) # translators) h objects =
     (case translate_pass h objects cpath callback of
        Inl x \<Rightarrow> Inl x
      | Inr h' \<Rightarrow> translate translators h' objects)"

text \<open>The constructor compiles the path of every translator.\<close>

definition init_translators :: "(pathspec list \<times> transform) list \<Rightarrow> (component list \<times> transform) list" where
  "init_translators translators = map (\<lambda>(path, cb). (compile_path path, cb)) translators"

section \<open>The response\<close>

text \<open>
  A \<^verbatim>\<open>Response\<close> object is its instance dictionary: the attributes that have been set on
  it.  The class has three properties, \<^verbatim>\<open>numFound\<close>, \<^verbatim>\<open>start\<close> and \<^verbatim>\<open>maxScore\<close>, whose setters
  store \<^verbatim>\<open>int(value)\<close>, \<^verbatim>\<open>int(value)\<close> and \<^verbatim>\<open>float(value)\<close> under the same name with an
  underscore in front, and whose getters read it back.  The built-in conversions \<^verbatim>\<open>int\<close> and
  \<^verbatim>\<open>float\<close> are parameters of the model.  Names that the interpreter treats specially
  (\<^verbatim>\<open>__class__\<close>, \<^verbatim>\<open>__dict__\<close>, \<^verbatim>\<open>__weakref__\<close>) are set like any other name here; what is
  proved about attributes leaves them out.
\<close>

type_synonym response = "string \<Rightarrow> pyval option"

type_synonym conversion = "pyval \<Rightarrow> pyerror + pyval"

text \<open>New objects are allocated at the next free address \<open>n\<close> of a heap \<open>(h, n)\<close>.\<close>

type_synonym heap = "store \<times> nat"

definition alloc :: "heap \<Rightarrow> pyobj \<Rightarrow> pyval \<times> heap" where
  "alloc m ob = (case m of (h, n) \<Rightarrow> (VRef n, (h(n := ob), Suc n)))"

text \<open>The truth value of an object: \<^verbatim>\<open>if obj\<close>.\<close>

definition truthy :: "store \<Rightarrow> pyval \<Rightarrow> bool" where
  "truthy h obj =
     (case obj of
        VNone \<Rightarrow> False
      | VBool b \<Rightarrow> b
      | VInt i \<Rightarrow> i \<noteq> 0
      | VStr s \<Rightarrow> s \<noteq> []
      | VOther t n \<Rightarrow> t
      | VRef a \<Rightarrow> (case h a of ODict d \<Rightarrow> d \<noteq> [] | OList xs \<Rightarrow> xs \<noteq> []))"

text \<open>\<^verbatim>\<open>Response.__init__\<close>\<close>

definition Response_init :: "heap \<Rightarrow> response \<times> heap" where
  "Response_init m =
     (let (header, m1) = alloc m (ODict []);
          (results, m2) = alloc m1 (OList []);
          (params, m3) = alloc m2 (ODict [])
      in (Map.empty(''header'' \<mapsto> header, ''results'' \<mapsto> results,
                    ''_query'' \<mapsto> VNone, ''_params'' \<mapsto> params), m3))"

text \<open>\<^verbatim>\<open>Response._set_params\<close>: \<^verbatim>\<open>self._query = query; self._params = params or {}\<close>\<close>

definition set_params :: "response \<Rightarrow> heap \<Rightarrow> pyval \<Rightarrow> pyval \<Rightarrow> response \<times> heap" where
  "set_params self m params query =
     (if truthy (fst m) params then (self(''_query'' \<mapsto> query, ''_params'' \<mapsto> params), m)
      else (let (empty_dict, m') = alloc m (ODict [])
            in (self(''_query'' \<mapsto> query, ''_params'' \<mapsto> empty_dict), m')))"

text \<open>\<^verbatim>\<open>setattr(response, k, v)\<close>, through the setters of the three properties.\<close>

definition setattr :: "conversion \<Rightarrow> conversion \<Rightarrow> response \<Rightarrow> pykey \<Rightarrow> pyval \<Rightarrow> pyerror + response" where
  "setattr py_int py_float self k v =
     (case k of
        KInt i \<Rightarrow> Inl TypeError
      | KStr name \<Rightarrow>
          (if name = ''numFound'' then
             (case py_int v of Inl e \<Rightarrow> Inl e | Inr i \<Rightarrow> Inr (self(''_numFound'' \<mapsto> i)))
           else if name = ''start'' then
             (case py_int v of Inl e \<Rightarrow> Inl e | Inr i \<Rightarrow> Inr (self(''_start'' \<mapsto> i)))
           else if name = ''maxScore'' then
             (case py_float v of Inl e \<Rightarrow> Inl e | Inr x \<Rightarrow> Inr (self(''_maxScore'' \<mapsto> x)))
           else Inr (self(name \<mapsto> v))))"

text \<open>Reading an attribute of a response, through the getters of the three properties.\<close>

definition getattr :: "response \<Rightarrow> string \<Rightarrow> pyerror + pyval" where
  "getattr self name =
     (case self (if name = ''numFound'' then ''_numFound''
                 else if name = ''start'' then ''_start''
                 else if name = ''maxScore'' then ''_maxScore''
                 else name) of
        None \<Rightarrow> Inl AttributeError
      | Some v \<Rightarrow> Inr v)"

section \<open>The parser\<close>

text \<open>
  \<^verbatim>\<open>obj.pop(key, dflt)\<close> with a default.  A dictionary gives up the entry; a list takes one argument
  only; nothing else has the method.
\<close>

definition pop :: "store \<Rightarrow> pyval \<Rightarrow> pykey \<Rightarrow> pyval \<Rightarrow> pyerror + (pyval \<times> store)" where
  "pop h obj key dflt =
     (case obj of
        VRef a \<Rightarrow>
          (case h a of
             ODict d \<Rightarrow>
               (case map_of d key of
                  None \<Rightarrow> Inr (dflt, h)
                | Some v \<Rightarrow> Inr (v, h(a := ODict (AList.delete key d))))
           | OList xs \<Rightarrow> Inl TypeError)
      | _ \<Rightarrow> Inl AttributeError)"

text \<open>\<^verbatim>\<open>list(obj.items())\<close>\<close>

definition dict_items :: "store \<Rightarrow> pyval \<Rightarrow> pyerror + (pykey \<times> pyval) list" where
  "dict_items h obj =
     (case obj of
        VRef a \<Rightarrow> (case h a of ODict d \<Rightarrow> Inr d | OList xs \<Rightarrow> Inl AttributeError)
      | _ \<Rightarrow> Inl AttributeError)"

text \<open>\<^verbatim>\<open>for k, v in ...: if k != 'name': setattr(response, k, v)\<close>\<close>

fun set_attributes :: "conversion \<Rightarrow> conversion \<Rightarrow> response \<Rightarrow> (pykey \<times> pyval) list \<Rightarrow> pyerror + response" where
  "set_attributes py_int py_float response [] = Inr response"
| "set_attributes py_int py_float response ((k, v) # rest) =
     (if k \<noteq> KStr ''name'' then
        (case setattr py_int py_float response k v of
           Inl e \<Rightarrow> Inl e
         | Inr response' \<Rightarrow> set_attributes py_int py_float response' rest)
      else set_attributes py_int py_float response rest)"

text \<open>
  \<^verbatim>\<open>JSONResponseParser.__call__\<close>, from the decoded object on: \<open>obj\<close> is what \<^verbatim>\<open>load_json\<close>
  returned, in the heap \<open>m\<close>.  The result is \<open>None\<close> when the method returns nothing.
\<close>

definition call ::
  "conversion \<Rightarrow> conversion \<Rightarrow> (component list \<times> transform) list \<Rightarrow> heap \<Rightarrow> pyval \<Rightarrow> pyval \<Rightarrow> pyval
     \<Rightarrow> (pyerror \<times> heap) + (response option \<times> heap)" where
  "call py_int py_float translators m obj params query =
     (case translate translators (fst m) [obj] of
        Inl (e, h') \<Rightarrow> Inl (e, (h', snd m))
      | Inr h1 \<Rightarrow>
          if \<not> truthy h1 obj then Inr (None, (h1, snd m))
          else
            (let (response, m1) = Response_init (h1, snd m);
                 (response, m2) = set_params response m1 params query
             in case pop (fst m2) obj (KStr ''responseHeader'') VNone of
               Inl e \<Rightarrow> Inl (e, m2)
             | Inr (header, h3) \<Rightarrow>
                 (let response = response(''header'' \<mapsto> header);
                      (empty_dict, m4) = alloc (h3, snd m2) (ODict [])
                  in case pop (fst m4) obj (KStr ''response'') empty_dict of
                    Inl e \<Rightarrow> Inl (e, m4)
                  | Inr (result_data, h5) \<Rightarrow>
                      (let (empty_list, m6) = alloc (h5, snd m4) (OList [])
                       in case pop (fst m6) result_data (KStr ''docs'') empty_list of
                         Inl e \<Rightarrow> Inl (e, m6)
                       | Inr (results, h7) \<Rightarrow>
                           (let response = response(''results'' \<mapsto> results)
                            in case dict_items h7 result_data of
                              Inl e \<Rightarrow> Inl (e, (h7, snd m6))
                            | Inr kvs1 \<Rightarrow>
                                (case dict_items h7 obj of
                                   Inl e \<Rightarrow> Inl (e, (h7, snd m6))
                                 | Inr kvs2 \<Rightarrow>
                                     (case set_attributes py_int py_float response (kvs1 @ kvs2) of
                                        Inl e \<Rightarrow> Inl (e, (h7, snd m6))
                                      | Inr response' \<Rightarrow> Inr (Some response', (h7, snd m6)))))))))"

section \<open>The translator in the words of the specification\<close>

text \<open>
  The specification describes a pass by a working set of nodes.  One level of descent
  replaces the working set by the concatenation of \<open>values(node)\<close> over its nodes; when the
  generator of some node raises, the first such exception is the result.
\<close>

definition fan_out :: "component \<Rightarrow> store \<Rightarrow> pyval list \<Rightarrow> pyerror + pyval list" where
  "fan_out component h working_set =
     (let gens = map (component_values component h) working_set
      in case List.map_filter snd gens of
           [] \<Rightarrow> Inr (concat (map fst gens))
         | e # es \<Rightarrow> Inl e)"

text \<open>The descent through a sequence of components, the outermost first.\<close>

fun spec_descend :: "store \<Rightarrow> component list \<Rightarrow> pyval list \<Rightarrow> pyerror + pyval list" where
  "spec_descend h [] working_set = Inr working_set"
| "spec_descend h (component # inner) working_set =
     (case fan_out component h working_set of
        Inl e \<Rightarrow> Inl e
      | Inr working_set' \<Rightarrow> spec_descend h inner working_set')"

text \<open>
  The rewrite at the leaf: for every node of the working set and every pair that the leaf
  component yields for it, the entry of the node is overwritten with the transformed value.
\<close>

fun spec_rewrite :: "transform \<Rightarrow> component \<Rightarrow> store \<Rightarrow> pyval list \<Rightarrow> (pyerror \<times> store) + store" where
  "spec_rewrite transform leaf h [] = Inr h"
| "spec_rewrite transform leaf h (node # working_set) =
     (case rewrite_object transform leaf h node of
        Inl x \<Rightarrow> Inl x
      | Inr h' \<Rightarrow> spec_rewrite transform leaf h' working_set)"

text \<open>
  A pass over the roots, for a path given by its components but the last, the outermost
  first, and by its last component.
\<close>

definition spec_translate ::
  "store \<Rightarrow> pyval list \<Rightarrow> component list \<Rightarrow> component \<Rightarrow> transform \<Rightarrow> (pyerror \<times> store) + store" where
  "spec_translate h roots outer leaf transform =
     (case spec_descend h outer roots of
        Inl e \<Rightarrow> Inl (e, h)
      | Inr working_set \<Rightarrow> spec_rewrite transform leaf h working_set)"

section \<open>Auxiliary notions and examples\<close>

text \<open>The store that a pass leaves, whether it ended by an exception or not.\<close>

definition final_store :: "(pyerror \<times> store) + store \<Rightarrow> store" where
  "final_store r = (case r of Inl (e, h) \<Rightarrow> h | Inr h \<Rightarrow> h)"


text \<open>
  The transforms of the test suite: \<^verbatim>\<open>len\<close> and \<^verbatim>\<open>lambda x: x - 1\<close>, on the values of the
  model (the difference of an object other than a number is left out of the examples).
\<close>

definition py_len :: transform where
  "py_len h v =
     (case v of
        VStr s \<Rightarrow> Inr (VInt (int (length s)))
      | VRef a \<Rightarrow>
          (case h a of
             ODict d \<Rightarrow> Inr (VInt (int (length d)))
           | OList xs \<Rightarrow> Inr (VInt (int (length xs))))
      | _ \<Rightarrow> Inl TypeError)"

definition minus_one :: transform where
  "minus_one h v =
     (case v of
        VInt i \<Rightarrow> Inr (VInt (i - 1))
      | VBool b \<Rightarrow> Inr (VInt (of_bool b - 1))
      | _ \<Rightarrow> Inl TypeError)"

text \<open>
  The document of the test suite, decoded: the root is at address 0, the header at 1, the
  response at 3, the list of documents at 4 and the two documents at 5 and 6.
\<close>

definition fixture :: store where
  "fixture = (\<lambda>_. ODict [])
     (0 := ODict [(KStr ''responseHeader'', VRef 1), (KStr ''response'', VRef 3)],
      1 := ODict [(KStr ''status'', VInt 0), (KStr ''QTime'', VInt 0), (KStr ''params'', VRef 2)],
      2 := ODict [(KStr ''q'', VStr ''text:world''), (KStr ''wt'', VStr ''json''),
                  (KStr ''rows'', VStr ''1000'')],
      3 := ODict [(KStr ''numFound'', VInt 2), (KStr ''start'', VInt 0), (KStr ''docs'', VRef 4)],
      4 := OList [VRef 5, VRef 6],
      5 := ODict [(KStr ''text'', VStr ''hello world''), (KStr ''id'', VStr ''someid''),
                  (KStr ''hits'', VInt 513)],
      6 := ODict [(KStr ''text'', VStr ''farewell world''), (KStr ''id'', VStr ''otherid''),
                  (KStr ''hits'', VInt 111)])"

text \<open>The predicate of the test suite on keys, \<^verbatim>\<open>lambda s: s.startswith(prefix)\<close>, for string keys.\<close>

definition key_startswith :: "string \<Rightarrow> pykey \<Rightarrow> bool" where
  "key_startswith prefix k = (case k of KStr s \<Rightarrow> take (length prefix) s = prefix | KInt i \<Rightarrow> False)"

definition text_path :: "pathspec list" where
  "text_path = [PKey (KStr ''response''), PKey (KStr ''docs''), PNone, PKey (KStr ''text'')]"

text \<open>The path of every field of every document.\<close>

definition all_fields_path :: "pathspec list" where
  "all_fields_path = [PKey (KStr ''response''), PKey (KStr ''docs''), PNone, PNone]"



section \<open>Attributes of the response\<close>

text \<open>
  The attribute names that the parser itself or the setter of a property writes, and the
  names that the interpreter reserves on every instance.  An entry of the decoded document
  with such a key would overwrite what the parser has set, or is not set as a plain attribute.
\<close>

definition reserved_names :: "string list" where
  "reserved_names =
     [''header'', ''results'', ''_query'', ''_params'', ''_numFound'', ''_start'', ''_maxScore'',
      ''__class__'', ''__dict__'', ''__weakref__'']"

text \<open>The three properties of the class, and the name under which an attribute is stored.\<close>

definition property_name :: "string \<Rightarrow> bool" where
  "property_name name = (name = ''numFound'' \<or> name = ''start'' \<or> name = ''maxScore'')"

definition attr_slot :: "string \<Rightarrow> string" where
  "attr_slot name =
     (if name = ''numFound'' then ''_numFound''
      else if name = ''start'' then ''_start''
      else if name = ''maxScore'' then ''_maxScore''
      else name)"

text \<open>
  An entry can be set as an attribute of its own when its key is a string that is not
  reserved and, for a property, the conversion of its value does not raise.
\<close>

definition settable :: "conversion \<Rightarrow> conversion \<Rightarrow> pykey \<times> pyval \<Rightarrow> bool" where
  "settable py_int py_float kv =
     (case fst kv of
        KInt i \<Rightarrow> False
      | KStr name \<Rightarrow>
          name \<notin> set reserved_names
          \<and> (if name = ''numFound'' \<or> name = ''start'' then \<not> isl (py_int (snd kv))
             else if name = ''maxScore'' then \<not> isl (py_float (snd kv))
             else True))"

text \<open>What reading the attribute gives once it has been set to a value.\<close>

definition attribute_value :: "conversion \<Rightarrow> conversion \<Rightarrow> string \<Rightarrow> pyval \<Rightarrow> pyerror + pyval" where
  "attribute_value py_int py_float name v =
     (if name = ''numFound'' \<or> name = ''start'' then py_int v
      else if name = ''maxScore'' then py_float v
      else Inr v)"

text \<open>
  The conversion \<^verbatim>\<open>int\<close> on integers, booleans and \<^verbatim>\<open>None\<close>, for the examples (they use it on
  nothing else; what it does to a string or to another object is not modelled).
\<close>

definition int_of_number :: conversion where
  "int_of_number v =
     (case v of
        VInt i \<Rightarrow> Inr (VInt i)
      | VBool b \<Rightarrow> Inr (VInt (if b then 1 else 0))
      | _ \<Rightarrow> Inl TypeError)"

text \<open>
  The document of the test suite with two more keys at the top, one of them \<^verbatim>\<open>name\<close>.
\<close>

definition fixture_extra :: store where
  "fixture_extra = fixture
     (0 := ODict [(KStr ''responseHeader'', VRef 1), (KStr ''response'', VRef 3),
                  (KStr ''termVectors'', VStr ''some data''), (KStr ''name'', VStr ''noise'')])"

section \<open>The path compiler\<close>

lemma compile_loop_eq: "compile_loop res path = res @ map compile_component path"
  by (induction path arbitrary: res) auto

lemma compile_path_eq: "compile_path path = rev (map compile_component path)"
  by (simp add: compile_path_def compile_loop_eq rev_map)

lemma py_index_nat: "py_index (int i) n = (if i < n then Some i else None)"
  by (simp add: py_index_def)



section \<open>The matchers\<close>

lemma getitem_errors: "getitem h obj key = Inl e \<Longrightarrow> caught e"
  by (auto simp: getitem_def caught_def split: pyval.splits pyobj.splits pykey.splits option.splits)



section \<open>The descent and the working set\<close>

lemma extend_values_fan_out:
  "extend_values c h acc ws = (case fan_out c h ws of Inl e \<Rightarrow> Inl e | Inr r \<Rightarrow> Inr (acc @ r))"
proof (induction ws arbitrary: acc)
  case Nil
  then show ?case by (simp add: fan_out_def List.map_filter_simps)
next
  case (Cons obj ws)
  obtain vs stop where g: "component_values c h obj = (vs, stop)"
    by (cases "component_values c h obj")
  show ?case
  proof (cases stop)
    case None
    with g Cons show ?thesis
      by (simp add: fan_out_def List.map_filter_simps Let_def split: list.splits)
  next
    case (Some e)
    with g show ?thesis
      by (simp add: fan_out_def List.map_filter_simps Let_def)
  qed
qed

lemma tuple_get_nat: "k < length cpath \<Longrightarrow> tuple_get cpath (int k) = Inr (cpath ! k)"
  by (simp add: tuple_get_def py_index_nat)

lemma tuple_get_zero: "cpath \<noteq> [] \<Longrightarrow> tuple_get cpath 0 = Inr (hd cpath)"
  by (cases cpath) (simp_all add: tuple_get_def py_index_def)

lemma descend_zero: "descend h cpath 0 ws = Inr ws"
  by (subst descend.simps) simp

text \<open>
  The loop that counts \<open>ind\<close> down from \<open>k\<close> visits the components \<open>k, \<dots>, 1\<close> of the compiled
  path, which are the first \<open>k\<close> components after the leaf, the outermost first.
\<close>

lemma descend_nat:
  "k < length cpath \<Longrightarrow> descend h cpath (int k) ws = spec_descend h (rev (take k (tl cpath))) ws"
proof (induction k arbitrary: ws)
  case 0
  then show ?case by (simp add: descend_zero)
next
  case (Suc k)
  then have k: "k < length (tl cpath)" and k': "k < length cpath" by auto
  have nth: "tl cpath ! k = cpath ! Suc k"
    using Suc.prems by (simp add: nth_tl)
  have ne: "int (Suc k) \<noteq> 0" by simp
  have step: "int (Suc k) - 1 = int k" by simp
  have unfold: "descend h cpath (int (Suc k)) ws =
      (case fan_out (cpath ! Suc k) h ws of
         Inl e \<Rightarrow> Inl e
       | Inr ws' \<Rightarrow> descend h cpath (int k) ws')"
    apply (subst descend.simps)
    apply (simp only: ne step if_True tuple_get_nat[OF Suc.prems] sum.case extend_values_fan_out)
    apply (simp split: sum.splits)
    done
  show ?case
    unfolding unfold
    by (simp add: take_Suc_conv_app_nth[OF k] nth Suc.IH[OF k'] split: sum.splits)
qed

lemma rewrite_objects_spec:
  "cpath \<noteq> [] \<Longrightarrow> rewrite_objects cb cpath 0 h ws = spec_rewrite cb (hd cpath) h ws"
proof (induction ws arbitrary: h)
  case Nil
  then show ?case by simp
next
  case (Cons obj ws)
  then show ?case by (simp add: tuple_get_zero split: sum.splits)
qed

lemma translate_pass_spec:
  assumes "cpath \<noteq> []"
  shows "translate_pass h roots cpath cb = spec_translate h roots (rev (tl cpath)) (hd cpath) cb"
proof -
  from assms obtain k where k: "length cpath = Suc k" by (cases cpath) auto
  then have ind: "int (length cpath) - 1 = int k" by simp
  have tk: "take k (tl cpath) = tl cpath" using k by simp
  have "descend h cpath (int k) roots = spec_descend h (rev (tl cpath)) roots"
    using descend_nat[of k cpath h roots] k tk by simp
  then show ?thesis
    using assms
    by (simp add: translate_pass_def spec_translate_def rewrite_objects_spec ind split: sum.splits)
qed

lemma translate_pass_empty: "translate_pass h roots [] cb = Inl (IndexError, h)"
  unfolding translate_pass_def
  by (subst descend.simps) (simp add: tuple_get_def py_index_def)




section \<open>Assignments at the leaf\<close>


lemma enumerate_list_eq: "enumerate_list xs = map (\<lambda>i. (KInt (int i), xs ! i)) [0..<length xs]"
  unfolding enumerate_list_def
  by (induction xs rule: rev_induct) (auto simp: nth_append)

lemma in_enumerate_list:
  "(k, v) \<in> set (enumerate_list xs) \<longleftrightarrow> (\<exists>i<length xs. k = KInt (int i) \<and> v = xs ! i)"
  by (auto simp: enumerate_list_eq)

lemma keys_enumerate_list: "fst ` set (enumerate_list xs) = (\<lambda>i. KInt (int i)) ` {..<length xs}"
  by (auto simp: enumerate_list_eq image_iff)

lemma update_other_entry: "(k, v) \<in> set d \<Longrightarrow> k \<noteq> k' \<Longrightarrow> (k, v) \<in> set (AList.update k' v' d)"
  by (induction d) auto

lemma enum_key_setitem:
  assumes "k \<in> fst ` set (PathComponent_items h obj)"
  shows "\<exists>h'. setitem h obj k v = Inr h'"
proof (cases obj)
  case (VRef a)
  show ?thesis
  proof (cases "h a")
    case (ODict d)
    with VRef show ?thesis by (simp add: setitem_def)
  next
    case (OList xs)
    with VRef assms obtain j where "k = KInt (int j)" "j < length xs"
      by (auto simp: PathComponent_items_def keys_enumerate_list)
    with VRef OList show ?thesis by (simp add: setitem_def py_index_nat)
  qed
qed (use assms in \<open>auto simp: PathComponent_items_def\<close>)

lemma setitem_enum_keys:
  assumes "setitem h obj k v = Inr h'" and "k \<in> fst ` set (PathComponent_items h obj)"
  shows "fst ` set (PathComponent_items h' obj) = fst ` set (PathComponent_items h obj)"
proof (cases obj)
  case (VRef a)
  show ?thesis
  proof (cases "h a")
    case (ODict d)
    with VRef assms have "h' = h(a := ODict (AList.update k v d))" and "k \<in> fst ` set d"
      by (auto simp: setitem_def PathComponent_items_def)
    with VRef ODict show ?thesis
      by (auto simp: PathComponent_items_def dom_update)
  next
    case (OList xs)
    with VRef assms obtain j where "h' = h(a := OList (xs[j := v]))"
      by (auto simp: setitem_def split: pykey.splits option.splits)
    with VRef OList show ?thesis
      by (simp add: PathComponent_items_def keys_enumerate_list)
  qed
qed (use assms in \<open>auto simp: PathComponent_items_def\<close>)

lemma setitem_other_entry:
  assumes "setitem h obj k' v' = Inr h'" and "k' \<in> fst ` set (PathComponent_items h obj)"
    and "(k, v) \<in> set (PathComponent_items h (VRef b))" and "k \<noteq> k'"
  shows "(k, v) \<in> set (PathComponent_items h' (VRef b))"
proof (cases obj)
  case (VRef a)
  show ?thesis
  proof (cases "h a")
    case (ODict d)
    with VRef assms have h': "h' = h(a := ODict (AList.update k' v' d))"
      by (auto simp: setitem_def)
    show ?thesis
      using assms(3,4) ODict unfolding h'
      by (auto simp: PathComponent_items_def update_other_entry)
  next
    case (OList xs)
    from assms(2) VRef OList obtain j where j: "k' = KInt (int j)" "j < length xs"
      by (auto simp: PathComponent_items_def keys_enumerate_list)
    with VRef OList assms(1) have h': "h' = h(a := OList (xs[j := v']))"
      by (auto simp: setitem_def py_index_nat)
    show ?thesis
      using assms(3,4) OList j unfolding h'
      by (auto simp: PathComponent_items_def in_enumerate_list nth_list_update)
  qed
qed (use assms in \<open>auto simp: PathComponent_items_def\<close>)


lemma assign_items_enum_error:
  "fst ` set kvs \<subseteq> fst ` set (PathComponent_items h obj) \<Longrightarrow>
   assign_items cb obj h kvs = Inl (e, h') \<Longrightarrow> \<exists>h'' v. cb h'' v = Inl e"
proof (induction kvs arbitrary: h)
  case Nil
  then show ?case by simp
next
  case (Cons kv kvs)
  obtain k v where kv: "kv = (k, v)" by (cases kv)
  show ?case
  proof (cases "cb h v")
    case (Inl e')
    with Cons.prems kv show ?thesis by auto
  next
    case (Inr v')
    from Cons.prems(1) kv have k: "k \<in> fst ` set (PathComponent_items h obj)" by auto
    then obtain h1 where h1: "setitem h obj k v' = Inr h1"
      using enum_key_setitem by blast
    have "fst ` set kvs \<subseteq> fst ` set (PathComponent_items h1 obj)"
      using Cons.prems(1) setitem_enum_keys[OF h1 k] by auto
    moreover have "assign_items cb obj h1 kvs = Inl (e, h')"
      using Cons.prems(2) kv Inr h1 by simp
    ultimately show ?thesis by (rule Cons.IH)
  qed
qed

lemma assign_items_enum_untouched:
  "fst ` set kvs \<subseteq> fst ` set (PathComponent_items h obj) \<Longrightarrow>
   (k, v) \<in> set (PathComponent_items h (VRef b)) \<Longrightarrow> k \<notin> fst ` set kvs \<Longrightarrow>
   (k, v) \<in> set (PathComponent_items (final_store (assign_items cb obj h kvs)) (VRef b))"
proof (induction kvs arbitrary: h)
  case Nil
  then show ?case by (simp add: final_store_def)
next
  case (Cons kv kvs)
  obtain k' x where kv: "kv = (k', x)" by (cases kv)
  show ?case
  proof (cases "cb h x")
    case (Inl e')
    with Cons.prems kv show ?thesis by (simp add: final_store_def)
  next
    case (Inr v')
    from Cons.prems(1) kv have k': "k' \<in> fst ` set (PathComponent_items h obj)" by auto
    then obtain h1 where h1: "setitem h obj k' v' = Inr h1"
      using enum_key_setitem by blast
    have sub: "fst ` set kvs \<subseteq> fst ` set (PathComponent_items h1 obj)"
      using Cons.prems(1) setitem_enum_keys[OF h1 k'] by auto
    have ne: "k \<noteq> k'" using Cons.prems(3) kv by auto
    have ent: "(k, v) \<in> set (PathComponent_items h1 (VRef b))"
      using setitem_other_entry[OF h1 k' Cons.prems(2) ne] .
    have "k \<notin> fst ` set kvs" using Cons.prems(3) by auto
    from Cons.IH[OF sub ent this] show ?thesis
      using kv Inr h1 by simp
  qed
qed


lemma Matcher_loop_subset: "set (fst (Matcher_loop f kvs)) \<subseteq> set kvs"
  by (induction kvs) (auto split: sum.splits prod.splits if_splits)

lemma Matcher_loop_stop: "snd (Matcher_loop f kvs) = Some e \<Longrightarrow> \<exists>k. f k = Inl e"
  by (induction kvs) (auto split: sum.splits prod.splits)

lemma Matcher_loop_keys: "(k, v) \<in> set (fst (Matcher_loop f kvs)) \<Longrightarrow> f k = Inr True"
  by (induction kvs) (auto split: sum.splits prod.splits if_splits)

lemma component_items_stop:
  "snd (component_items c h obj) = Some e \<Longrightarrow> \<exists>f k. c = Matcher f \<and> f k = Inl e"
proof (cases c)
  case (Attribute val)
  assume "snd (component_items c h obj) = Some e"
  with Attribute show ?thesis
    using getitem_errors[of h obj val]
    by (auto simp: Attribute_items_def split: sum.splits if_splits)
next
  case (Matcher f)
  assume "snd (component_items c h obj) = Some e"
  with Matcher show ?thesis
    by (auto simp: Matcher_items_def dest: Matcher_loop_stop)
qed simp

lemma component_values_stop:
  "snd (component_values c h obj) = Some e \<Longrightarrow> \<exists>f k. c = Matcher f \<and> f k = Inl e"
proof (cases c)
  case (Attribute val)
  assume "snd (component_values c h obj) = Some e"
  with Attribute show ?thesis
    using getitem_errors[of h obj val]
    by (auto simp: Attribute_values_def split: sum.splits if_splits)
next
  case (Matcher f)
  assume "snd (component_values c h obj) = Some e"
  with Matcher have "snd (component_items (Matcher f) h obj) = Some e"
    by (simp add: PathComponent_values_def split: prod.splits)
  with Matcher show ?thesis
    using component_items_stop by blast
qed simp

lemma fan_out_error: "fan_out c h ws = Inl e \<Longrightarrow> \<exists>f k. c = Matcher f \<and> f k = Inl e"
proof -
  assume "fan_out c h ws = Inl e"
  then obtain es where "List.map_filter snd (map (component_values c h) ws) = e # es"
    by (auto simp: fan_out_def Let_def split: list.splits)
  then have "e \<in> set (List.map_filter snd (map (component_values c h) ws))" by simp
  then obtain obj where "snd (component_values c h obj) = Some e"
    by (auto simp: List.map_filter_def)
  then show ?thesis by (rule component_values_stop)
qed

lemma spec_descend_error:
  "spec_descend h cs ws = Inl e \<Longrightarrow> \<exists>f k. Matcher f \<in> set cs \<and> f k = Inl e"
proof (induction cs arbitrary: ws)
  case Nil
  then show ?case by simp
next
  case (Cons c cs)
  show ?case
  proof (cases "fan_out c h ws")
    case (Inl e')
    with Cons.prems have "fan_out c h ws = Inl e" by simp
    from fan_out_error[OF this] show ?thesis by auto
  next
    case (Inr ws')
    with Cons.prems have "spec_descend h cs ws' = Inl e" by simp
    from Cons.IH[OF this] show ?thesis by auto
  qed
qed

lemma getitem_ok_setitem:
  "getitem h obj k = Inr v \<Longrightarrow> setitem h obj k v' = Inl e \<Longrightarrow> e = TypeError"
  by (auto simp: getitem_def setitem_def split: pyval.splits pyobj.splits pykey.splits option.splits)

lemma rewrite_object_error:
  assumes "rewrite_object cb c h obj = Inl (e, h')"
  shows "(\<exists>h'' v. cb h'' v = Inl e) \<or> (\<exists>f k. c = Matcher f \<and> f k = Inl e) \<or> e = TypeError"
proof -
  obtain kvs stop where it: "component_items c h obj = (kvs, stop)"
    by (cases "component_items c h obj")
  show ?thesis
  proof (cases "assign_items cb obj h kvs")
    case (Inr h1)
    with assms it have "stop = Some e" by (auto simp: rewrite_object_def split: option.splits)
    with it have "snd (component_items c h obj) = Some e" by simp
    from component_items_stop[OF this] show ?thesis by blast
  next
    case (Inl x)
    with assms it have err: "assign_items cb obj h kvs = Inl (e, h')"
      by (simp add: rewrite_object_def)
    show ?thesis
    proof (cases c)
      case Wildcard
      with it have "fst ` set kvs \<subseteq> fst ` set (PathComponent_items h obj)" by auto
      from assign_items_enum_error[OF this err] show ?thesis by blast
    next
      case (Matcher f)
      with it have "fst ` set kvs \<subseteq> fst ` set (PathComponent_items h obj)"
        using Matcher_loop_subset[of f "PathComponent_items h obj"]
        by (auto simp: Matcher_items_def)
      from assign_items_enum_error[OF this err] show ?thesis by blast
    next
      case (Attribute val)
      show ?thesis
      proof (cases "getitem h obj val")
        case (Inl e')
        with Attribute it err show ?thesis
          by (auto simp: Attribute_items_def split: if_splits)
      next
        case (Inr v)
        with Attribute it have kvs: "kvs = [(val, v)]" by (simp add: Attribute_items_def)
        show ?thesis
        proof (cases "cb h v")
          case (Inl e')
          with err kvs show ?thesis by auto
        next
          case cbv: (Inr v')
          with err kvs have "setitem h obj val v' = Inl e"
            by (auto split: sum.splits)
          from getitem_ok_setitem[OF Inr this] show ?thesis by simp
        qed
      qed
    qed
  qed
qed

lemma spec_rewrite_error:
  "spec_rewrite cb c h ws = Inl (e, h') \<Longrightarrow>
   (\<exists>h'' v. cb h'' v = Inl e) \<or> (\<exists>f k. c = Matcher f \<and> f k = Inl e) \<or> e = TypeError"
proof (induction ws arbitrary: h)
  case Nil
  then show ?case by simp
next
  case (Cons obj ws)
  show ?case
  proof (cases "rewrite_object cb c h obj")
    case (Inl x)
    with Cons.prems have "rewrite_object cb c h obj = Inl (e, h')" by simp
    then show ?thesis by (rule rewrite_object_error)
  next
    case (Inr h1)
    with Cons.prems have "spec_rewrite cb c h1 ws = Inl (e, h')" by simp
    then show ?thesis by (rule Cons.IH)
  qed
qed

lemma translate_pass_error:
  assumes "cpath \<noteq> []" and "translate_pass h roots cpath cb = Inl (e, h')"
  shows "(\<exists>h'' v. cb h'' v = Inl e) \<or> (\<exists>f k. Matcher f \<in> set cpath \<and> f k = Inl e) \<or> e = TypeError"
proof -
  from assms have st: "spec_translate h roots (rev (tl cpath)) (hd cpath) cb = Inl (e, h')"
    by (simp add: translate_pass_spec)
  show ?thesis
  proof (cases "spec_descend h (rev (tl cpath)) roots")
    case (Inl e')
    with st have "spec_descend h (rev (tl cpath)) roots = Inl e" by (simp add: spec_translate_def)
    from spec_descend_error[OF this] obtain f k where "Matcher f \<in> set (tl cpath)" "f k = Inl e"
      by auto
    then show ?thesis using assms(1) by (auto dest: list.set_sel(2))
  next
    case (Inr ws)
    with st have "spec_rewrite cb (hd cpath) h ws = Inl (e, h')" by (simp add: spec_translate_def)
    from spec_rewrite_error[OF this] show ?thesis
      using assms(1) hd_in_set[of cpath] by metis
  qed
qed

section \<open>The empty path\<close>

text \<open>
  C10.  The empty path compiles to the empty tuple, and a pass with it raises \<^verbatim>\<open>IndexError\<close>
  before any rewrite: the loop starts at \<open>ind = -1\<close>, which is true, and \<^verbatim>\<open>cpath[-1]\<close> of the
  empty tuple raises.  For a compiled path with at least one component the indexing never fails:
  a pass raises \<^verbatim>\<open>IndexError\<close> only if the transform or the function of a predicate does.
\<close>

theorem empty_path_raises:
  "compile_path [] = []
   \<and> tuple_get (compile_path []) (int (length (compile_path [])) - 1) = Inl IndexError
   \<and> translate_pass h roots (compile_path []) transform = Inl (IndexError, h)
   \<and> (cpath \<noteq> [] \<longrightarrow> (\<forall>h v. transform h v \<noteq> Inl IndexError) \<longrightarrow>
        (\<forall>f k. Matcher f \<in> set cpath \<longrightarrow> f k \<noteq> Inl IndexError) \<longrightarrow>
        translate_pass h roots cpath transform \<noteq> Inl (IndexError, h'))"
proof -
  have "translate_pass h roots cpath transform \<noteq> Inl (IndexError, h')"
    if "cpath \<noteq> []" and "\<forall>h v. transform h v \<noteq> Inl IndexError"
      and "\<forall>f k. Matcher f \<in> set cpath \<longrightarrow> f k \<noteq> Inl IndexError"
    using translate_pass_error[OF that(1), of h roots transform IndexError h'] that(2,3)
    by auto
  then show ?thesis
    by (simp add: compile_path_eq translate_pass_empty tuple_get_def py_index_def)
qed

theorem empty_path_raises_witness:
  "compile_path text_path \<noteq> []
   \<and> (\<forall>h v. py_len h v \<noteq> Inl IndexError)
   \<and> translate_pass fixture [VRef 0] (compile_path []) py_len = Inl (IndexError, fixture)
   \<and> translate_pass fixture [VRef 0] (compile_path text_path) py_len \<noteq> Inl (IndexError, fixture)"
proof -
  have 1: "compile_path text_path \<noteq> []"
    by (simp add: compile_path_eq text_path_def)
  have 2: "\<forall>h v. py_len h v \<noteq> Inl IndexError"
    by (auto simp: py_len_def split: pyval.splits pyobj.splits)
  have 3: "\<forall>f k. Matcher f \<in> set (compile_path text_path) \<longrightarrow> f k \<noteq> Inl IndexError"
    by (simp add: compile_path_eq text_path_def)
  show ?thesis
    using empty_path_raises[of fixture "[VRef 0]" py_len "compile_path text_path" fixture] 1 2 3
    by blast
qed

section \<open>Predicates at the leaf\<close>

lemma Matcher_loop_total: "Matcher_loop (\<lambda>k. Inr (p k)) kvs = (filter (\<lambda>(k, v). p k) kvs, None)"
  by (induction kvs) auto

lemma final_store_rewrite_object:
  "final_store (rewrite_object cb c h obj)
     = final_store (assign_items cb obj h (fst (component_items c h obj)))"
  by (auto simp: rewrite_object_def final_store_def split: prod.splits sum.splits option.splits)

lemma rewrite_object_untouched:
  assumes "(k, v) \<in> set (PathComponent_items h (VRef b))" and "f k \<noteq> Inr True"
  shows "(k, v) \<in> set (PathComponent_items (final_store (rewrite_object cb (Matcher f) h obj)) (VRef b))"
proof -
  let ?kvs = "fst (Matcher_loop f (PathComponent_items h obj))"
  have sub: "fst ` set ?kvs \<subseteq> fst ` set (PathComponent_items h obj)"
    using Matcher_loop_subset[of f "PathComponent_items h obj"] by auto
  have "k \<notin> fst ` set ?kvs"
    using assms(2) Matcher_loop_keys[of k _ f "PathComponent_items h obj"] by auto
  from assign_items_enum_untouched[OF sub assms(1) this]
  show ?thesis by (simp add: final_store_rewrite_object Matcher_items_def)
qed

lemma spec_rewrite_untouched:
  "(k, v) \<in> set (PathComponent_items h (VRef b)) \<Longrightarrow> f k \<noteq> Inr True \<Longrightarrow>
   (k, v) \<in> set (PathComponent_items (final_store (spec_rewrite cb (Matcher f) h ws)) (VRef b))"
proof (induction ws arbitrary: h)
  case Nil
  then show ?case by (simp add: final_store_def)
next
  case (Cons obj ws)
  have step: "(k, v) \<in> set (PathComponent_items (final_store (rewrite_object cb (Matcher f) h obj)) (VRef b))"
    using Cons.prems by (rule rewrite_object_untouched)
  show ?case
  proof (cases "rewrite_object cb (Matcher f) h obj")
    case (Inl x)
    with step show ?thesis by simp
  next
    case (Inr h1)
    with step have "(k, v) \<in> set (PathComponent_items h1 (VRef b))"
      by (simp add: final_store_def)
    from Cons.IH[OF this Cons.prems(2)] Inr show ?thesis by simp
  qed
qed

lemma translate_pass_untouched:
  assumes "(k, v) \<in> set (PathComponent_items h (VRef b))" and "f k \<noteq> Inr True"
  shows "(k, v) \<in> set (PathComponent_items
           (final_store (translate_pass h roots (Matcher f # inner) cb)) (VRef b))"
proof (cases "spec_descend h (rev inner) roots")
  case (Inl e)
  with assms(1) show ?thesis
    by (simp add: translate_pass_spec spec_translate_def final_store_def)
next
  case (Inr ws)
  with spec_rewrite_untouched[of k v h b f cb ws] assms show ?thesis
    by (simp add: translate_pass_spec spec_translate_def)
qed

text \<open>
  C8.  For a predicate whose function is total, \<open>items\<close> of a mapping are exactly its entries
  whose key satisfies the function, which receives the key itself (a string, for the keys of
  a decoded mapping), and \<open>items\<close> of a sequence are exactly the pairs of a position and its
  element whose position satisfies it.  After a pass with the predicate at the leaf, however
  it ends, every entry of every mapping or sequence whose key does not satisfy the function
  is still in place.
\<close>

theorem predicate_items_filter:
  "component_items (Matcher (\<lambda>k. Inr (p k))) (h(a := ODict d)) (VRef a)
     = (filter (\<lambda>(k, v). p k) d, None)
   \<and> component_items (Matcher (\<lambda>k. Inr (p k))) (h(a := ODict (map (\<lambda>(s, v). (KStr s, v)) sd))) (VRef a)
     = (map (\<lambda>(s, v). (KStr s, v)) (filter (\<lambda>(s, v). p (KStr s)) sd), None)
   \<and> component_items (Matcher (\<lambda>k. Inr (p k))) (h(a := OList xs)) (VRef a)
     = (filter (\<lambda>(k, v). p k) (map (\<lambda>i. (KInt (int i), xs ! i)) [0..<length xs]), None)
   \<and> ((k, v) \<in> set (PathComponent_items h (VRef b)) \<longrightarrow> \<not> p k \<longrightarrow>
        (k, v) \<in> set (PathComponent_items
           (final_store (translate_pass h roots (Matcher (\<lambda>k. Inr (p k)) # inner) transform))
           (VRef b)))"
proof -
  have "filter (\<lambda>(k, v). p k) (map (\<lambda>(s, v). (KStr s, v)) sd)
          = map (\<lambda>(s, v). (KStr s, v)) (filter (\<lambda>(s, v). p (KStr s)) sd)"
    by (induction sd) auto
  then show ?thesis
    using translate_pass_untouched[of k v h b "\<lambda>k. Inr (p k)" roots inner transform]
    by (simp add: Matcher_items_def PathComponent_items_def Matcher_loop_total enumerate_list_eq)
qed


lemma fixture_predicate_pass:
  "translate_pass fixture [VRef 0]
      (compile_path [PKey (KStr ''response''), PKey (KStr ''docs''), PNone,
                     PCallable (\<lambda>k. Inr (key_startswith ''te'' k))]) py_len
   = Inr (fixture
       (5 := ODict [(KStr ''text'', VInt 11), (KStr ''id'', VStr ''someid''), (KStr ''hits'', VInt 513)],
        6 := ODict [(KStr ''text'', VInt 14), (KStr ''id'', VStr ''otherid''), (KStr ''hits'', VInt 111)]))"
  by (simp add: translate_pass_spec compile_path_eq
        spec_translate_def fan_out_def List.map_filter_simps Attribute_values_def
        Wildcard_values_def getitem_def fixture_def rewrite_object_def Matcher_items_def
        PathComponent_items_def key_startswith_def
        py_len_def setitem_def)

theorem predicate_items_filter_witness:
  "(KStr ''id'', VStr ''someid'') \<in> set (PathComponent_items fixture (VRef 5))
   \<and> \<not> key_startswith ''te'' (KStr ''id'')
   \<and> (KStr ''id'', VStr ''someid'') \<in> set (PathComponent_items
         (final_store (translate_pass fixture [VRef 0]
            [Matcher (\<lambda>k. Inr (key_startswith ''te'' k)), Wildcard,
             Attribute (KStr ''docs''), Attribute (KStr ''response'')] py_len))
         (VRef 5))
   \<and> component_items (Matcher (\<lambda>k. Inr (key_startswith ''te'' k)))
        (fixture(7 := ODict [(KStr ''text'', VStr ''hello''), (KStr ''id'', VStr ''someid'')])) (VRef 7)
      = ([(KStr ''text'', VStr ''hello'')], None)"
proof -
  have 1: "(KStr ''id'', VStr ''someid'') \<in> set (PathComponent_items fixture (VRef 5))"
    by (simp add: PathComponent_items_def fixture_def)
  have 2: "\<not> key_startswith ''te'' (KStr ''id'')"
    by (simp add: key_startswith_def)
  show ?thesis
    using predicate_items_filter[of "key_startswith ''te''" fixture 7
        "[(KStr ''text'', VStr ''hello''), (KStr ''id'', VStr ''someid'')]" "[]" "[]"
        "KStr ''id''" "VStr ''someid''" 5 "[VRef 0]"
        "[Wildcard, Attribute (KStr ''docs''), Attribute (KStr ''response'')]" py_len] 1 2
    by (simp add: key_startswith_def)
qed

section \<open>Order of the translators and failure of a transform\<close>

lemma translate_append:
  "translate (ts1 @ ts2) h objs =
     (case translate ts1 h objs of Inl x \<Rightarrow> Inl x | Inr h' \<Rightarrow> translate ts2 h' objs)"
  by (induction ts1 arbitrary: h) (auto split: sum.splits)

lemma rewrite_objects_append:
  "rewrite_objects cb cpath ind h (xs @ ys) =
     (case rewrite_objects cb cpath ind h xs of
        Inl x \<Rightarrow> Inl x
      | Inr h' \<Rightarrow> rewrite_objects cb cpath ind h' ys)"
  by (induction xs arbitrary: h) (auto split: sum.splits)

lemma assign_items_append:
  "assign_items cb obj h (xs @ ys) =
     (case assign_items cb obj h xs of
        Inl x \<Rightarrow> Inl x
      | Inr h' \<Rightarrow> assign_items cb obj h' ys)"
  by (induction xs arbitrary: h) (auto split: sum.splits)

text \<open>
  C7.  Let the translators before a given one have completed, let the descent of that one
  give a working set, let the nodes before some node have been rewritten and the pairs of
  that node before some pair have been assigned.  If the transform raises for the value of
  that pair, then the pass, the translation and the call of the parser all end with that
  exception, uncaught, and with the store as it is at that moment: the pairs and the nodes
  that remain are not rewritten, and the translators that remain are not applied.
\<close>

theorem transform_failure_propagates:
  assumes "translate before h [obj] = Inr h1"
    and "descend h1 cpath (int (length cpath) - 1) [obj] = Inr (visited @ node # todo)"
    and "rewrite_objects transform cpath 0 h1 visited = Inr h2"
    and "tuple_get cpath 0 = Inr leaf"
    and "component_items leaf h2 node = (kvs1 @ (key, val) # kvs2, stop)"
    and "assign_items transform node h2 kvs1 = Inr h3"
    and "transform h3 val = Inl e"
  shows "translate_pass h1 [obj] cpath transform = Inl (e, h3)
     \<and> translate (before @ (cpath, transform) # after) h [obj] = Inl (e, h3)
     \<and> call py_int py_float (before @ (cpath, transform) # after) (h, n) obj params query
         = Inl (e, (h3, n))"
proof -
  have "assign_items transform node h2 (kvs1 @ (key, val) # kvs2) = Inl (e, h3)"
    using assms(6,7) by (simp add: assign_items_append)
  then have "rewrite_object transform leaf h2 node = Inl (e, h3)"
    using assms(5) by (simp add: rewrite_object_def)
  then have "rewrite_objects transform cpath 0 h1 (visited @ node # todo) = Inl (e, h3)"
    using assms(3,4) by (simp add: rewrite_objects_append)
  then have pass: "translate_pass h1 [obj] cpath transform = Inl (e, h3)"
    using assms(2) by (simp add: translate_pass_def)
  then have all: "translate (before @ (cpath, transform) # after) h [obj] = Inl (e, h3)"
    using assms(1) by (simp add: translate_append)
  then show ?thesis
    using pass by (simp add: call_def)
qed


theorem transform_failure_propagates_witness:
  "py_len (fixture(5 := ODict [(KStr ''text'', VInt 11), (KStr ''id'', VInt 6), (KStr ''hits'', VInt 513)]))
      (VInt 513) = Inl TypeError
   \<and> translate_pass fixture [VRef 0] (compile_path all_fields_path) py_len
       = Inl (TypeError,
           fixture(5 := ODict [(KStr ''text'', VInt 11), (KStr ''id'', VInt 6), (KStr ''hits'', VInt 513)]))
   \<and> call Inr Inr [(compile_path all_fields_path, py_len), (compile_path text_path, minus_one)]
         (fixture, 7) (VRef 0) VNone VNone
       = Inl (TypeError,
           (fixture(5 := ODict [(KStr ''text'', VInt 11), (KStr ''id'', VInt 6), (KStr ''hits'', VInt 513)]), 7))"
proof -
  let ?cpath = "compile_path all_fields_path"
  let ?h3 = "fixture(5 := ODict [(KStr ''text'', VInt 11), (KStr ''id'', VInt 6), (KStr ''hits'', VInt 513)])"
  have cpath: "?cpath = [Wildcard, Wildcard, Attribute (KStr ''docs''), Attribute (KStr ''response'')]"
    by (simp add: compile_path_eq all_fields_path_def)
  have 1: "translate [] fixture [VRef 0] = Inr fixture" by simp
  have "descend fixture ?cpath (int 3) [VRef 0] = Inr ([] @ VRef 5 # [VRef 6])"
    unfolding cpath
    by (subst descend_nat)
       (simp_all add: fan_out_def List.map_filter_simps Attribute_values_def
          Wildcard_values_def getitem_def fixture_def)
  then have 2: "descend fixture ?cpath (int (length ?cpath) - 1) [VRef 0] = Inr ([] @ VRef 5 # [VRef 6])"
    by (simp add: cpath)
  have 3: "rewrite_objects py_len ?cpath 0 fixture [] = Inr fixture" by simp
  have 4: "tuple_get ?cpath 0 = Inr Wildcard"
    by (simp add: cpath tuple_get_zero)
  have 5: "component_items Wildcard fixture (VRef 5)
      = ([(KStr ''text'', VStr ''hello world''), (KStr ''id'', VStr ''someid'')]
           @ (KStr ''hits'', VInt 513) # [], None)"
    by (simp add: PathComponent_items_def fixture_def)
  have 6: "assign_items py_len (VRef 5) fixture
       [(KStr ''text'', VStr ''hello world''), (KStr ''id'', VStr ''someid'')] = Inr ?h3"
    by (simp add: py_len_def setitem_def fixture_def)
  have 7: "py_len ?h3 (VInt 513) = Inl TypeError"
    by (simp add: py_len_def)
  show ?thesis
    using transform_failure_propagates[OF 1 2 3 4 5 6 7,
        of "[(compile_path text_path, minus_one)]" Inr Inr 7 VNone VNone, unfolded append_Nil] 7
    by blast
qed











section \<open>The assembly of the response\<close>

lemma call_None_iff:
  assumes "translate translators h [obj] = Inr h1"
  shows "call py_int py_float translators (h, n) obj params query = Inr (None, m') \<longleftrightarrow>
         \<not> truthy h1 obj \<and> m' = (h1, n)"
  using assms
  by (auto simp: call_def Let_def split: prod.splits sum.splits)

lemma truthy_cases:
  "\<not> truthy h obj \<longleftrightarrow>
     obj = VNone \<or> obj = VBool False \<or> obj = VInt 0 \<or> obj = VStr []
     \<or> (\<exists>n. obj = VOther False n)
     \<or> (\<exists>a. obj = VRef a \<and> (h a = ODict [] \<or> h a = OList []))"
  by (auto simp: truthy_def split: pyval.splits pyobj.splits)

text \<open>
  C9.  When the translators have completed and the decoded object is then false, the parser
  returns nothing: no response is made and nothing is allocated.  It returns nothing in no
  other case.  The false objects are the empty mapping and the empty sequence, the empty
  string, zero, \<^verbatim>\<open>False\<close>, \<^verbatim>\<open>None\<close> and any other object whose truth value is false.
\<close>

theorem empty_tree_yields_nothing:
  assumes "translate translators h [obj] = Inr h1"
  shows "(\<not> truthy h1 obj \<longrightarrow>
            call py_int py_float translators (h, n) obj params query = Inr (None, (h1, n)))
     \<and> (call py_int py_float translators (h, n) obj params query = Inr (None, m') \<longrightarrow>
            \<not> truthy h1 obj)
     \<and> (\<not> truthy h1 obj \<longleftrightarrow>
            obj = VNone \<or> obj = VBool False \<or> obj = VInt 0 \<or> obj = VStr []
            \<or> (\<exists>k. obj = VOther False k)
            \<or> (\<exists>a. obj = VRef a \<and> (h1 a = ODict [] \<or> h1 a = OList [])))"
proof -
  have "call py_int py_float translators (h, n) obj params query = Inr (None, (h1, n))"
    if "\<not> truthy h1 obj"
    using that call_None_iff[OF assms, of py_int py_float n params query "(h1, n)"] by simp
  moreover have "\<not> truthy h1 obj"
    if "call py_int py_float translators (h, n) obj params query = Inr (None, m')"
    using that call_None_iff[OF assms, of py_int py_float n params query m'] by simp
  ultimately show ?thesis
    using truthy_cases[of h1 obj] by blast
qed

theorem empty_tree_yields_nothing_witness:
  "translate [(compile_path text_path, py_len)] (fixture(0 := ODict [])) [VRef 0]
      = Inr (fixture(0 := ODict []))
   \<and> \<not> truthy (fixture(0 := ODict [])) (VRef 0)
   \<and> call Inr Inr [(compile_path text_path, py_len)] (fixture(0 := ODict []), 7) (VRef 0) VNone VNone
      = Inr (None, (fixture(0 := ODict []), 7))"
proof -
  have 1: "translate [(compile_path text_path, py_len)] (fixture(0 := ODict [])) [VRef 0]
      = Inr (fixture(0 := ODict []))"
    by (simp add: translate_pass_spec compile_path_eq text_path_def
        spec_translate_def fan_out_def List.map_filter_simps Attribute_values_def getitem_def
        caught_def)
  have 2: "\<not> truthy (fixture(0 := ODict [])) (VRef 0)"
    by (simp add: truthy_def)
  show ?thesis
    using empty_tree_yields_nothing[OF 1, of Inr Inr 7 VNone VNone] 1 2 by blast
qed

text \<open>Setting the remaining entries as attributes.\<close>

lemma getattr_slot:
  "getattr r name = (case r (attr_slot name) of None \<Rightarrow> Inl AttributeError | Some v \<Rightarrow> Inr v)"
  by (simp add: getattr_def attr_slot_def)



lemma setattr_settable:
  assumes "settable pi pf (KStr name, v)"
  shows "\<exists>x. attribute_value pi pf name v = Inr x
            \<and> setattr pi pf r (KStr name) v = Inr (r(attr_slot name \<mapsto> x))"
proof -
  consider (int) "name = ''numFound'' \<or> name = ''start''"
    | (float) "name = ''maxScore''"
    | (plain) "name \<noteq> ''numFound''" "name \<noteq> ''start''" "name \<noteq> ''maxScore''"
    by blast
  then show ?thesis
  proof cases
    case int
    with assms obtain x where "pi v = Inr x"
      by (cases "pi v") (simp_all add: settable_def)
    with int show ?thesis
      by (auto simp: attribute_value_def setattr_def attr_slot_def)
  next
    case float
    with assms obtain x where "pf v = Inr x"
      by (cases "pf v") (simp_all add: settable_def)
    with float show ?thesis
      by (simp add: attribute_value_def setattr_def attr_slot_def)
  next
    case plain
    then show ?thesis
      by (simp add: attribute_value_def setattr_def attr_slot_def)
  qed
qed


lemma attr_slot_plain: "\<not> property_name a \<Longrightarrow> attr_slot a = a"
  by (simp add: attr_slot_def property_name_def)

lemma attr_slot_property: "property_name a \<Longrightarrow> attr_slot a \<in> set reserved_names"
  unfolding property_name_def
  by (elim disjE) (simp_all add: attr_slot_def reserved_names_def)

lemma attr_slot_property_inj:
  "property_name a \<Longrightarrow> property_name b \<Longrightarrow> attr_slot a = attr_slot b \<Longrightarrow> a = b"
  unfolding property_name_def
  by (elim disjE) (simp_all add: attr_slot_def)

lemma attr_slot_inj:
  assumes "a \<notin> set reserved_names" and "b \<notin> set reserved_names" and "attr_slot a = attr_slot b"
  shows "a = b"
proof (cases "property_name a")
  case True
  show ?thesis
  proof (cases "property_name b")
    case True
    from attr_slot_property_inj[OF \<open>property_name a\<close> True assms(3)] show ?thesis .
  next
    case False
    with assms(2,3) attr_slot_property[OF True] show ?thesis
      by (simp add: attr_slot_plain)
  qed
next
  case False
  show ?thesis
  proof (cases "property_name b")
    case True
    with assms(1,3) attr_slot_property[OF True] False show ?thesis
      by (simp add: attr_slot_plain)
  next
    case b: False
    with False assms(3) show ?thesis by (simp add: attr_slot_plain)
  qed
qed

lemma set_attributes_append:
  "set_attributes pi pf r (xs @ ys) =
     (case set_attributes pi pf r xs of Inl e \<Rightarrow> Inl e | Inr r' \<Rightarrow> set_attributes pi pf r' ys)"
  by (induction xs arbitrary: r) (auto split: sum.splits)

lemma set_attributes_ok:
  "list_all (settable pi pf) its \<Longrightarrow> \<exists>r'. set_attributes pi pf r its = Inr r'"
proof (induction its arbitrary: r)
  case Nil
  then show ?case by simp
next
  case (Cons kv its)
  obtain k v where kv: "kv = (k, v)" by (cases kv)
  from Cons.prems kv obtain name where k: "k = KStr name"
    by (cases k) (auto simp: settable_def)
  from Cons.prems kv k have "settable pi pf (KStr name, v)" by simp
  from setattr_settable[OF this, of r] Cons.IH Cons.prems kv k
  show ?case by (auto split: sum.splits)
qed

lemma set_attributes_frame:
  "set_attributes pi pf r its = Inr r' \<Longrightarrow> list_all (settable pi pf) its \<Longrightarrow>
   (\<And>name. KStr name \<in> fst ` set its \<Longrightarrow> name \<noteq> ''name'' \<Longrightarrow> attr_slot name \<noteq> s) \<Longrightarrow>
   r' s = r s"
proof (induction its arbitrary: r)
  case Nil
  then show ?case by simp
next
  case (Cons kv its)
  obtain k v where kv: "kv = (k, v)" by (cases kv)
  from Cons.prems(2) kv obtain name where k: "k = KStr name"
    by (cases k) (auto simp: settable_def)
  have rest: "list_all (settable pi pf) its" using Cons.prems(2) by simp
  have slots: "\<And>nm. KStr nm \<in> fst ` set its \<Longrightarrow> nm \<noteq> ''name'' \<Longrightarrow> attr_slot nm \<noteq> s"
    using Cons.prems(3) by auto
  show ?case
  proof (cases "name = ''name''")
    case True
    with Cons.prems(1) kv k have "set_attributes pi pf r its = Inr r'" by simp
    from Cons.IH[OF this rest slots] show ?thesis by simp
  next
    case False
    from Cons.prems(2) kv k have "settable pi pf (KStr name, v)" by simp
    from setattr_settable[OF this, of r] obtain x
      where x: "setattr pi pf r (KStr name) v = Inr (r(attr_slot name \<mapsto> x))" by blast
    with Cons.prems(1) kv k False
    have "set_attributes pi pf (r(attr_slot name \<mapsto> x)) its = Inr r'" by simp
    from Cons.IH[OF this rest slots] have "r' s = (r(attr_slot name \<mapsto> x)) s" by simp
    moreover have "attr_slot name \<noteq> s"
      using Cons.prems(3)[of name] kv k False by simp
    ultimately show ?thesis by simp
  qed
qed

lemma set_attributes_entry:
  assumes "set_attributes pi pf r (pre @ (KStr name, v) # post) = Inr r'"
    and "list_all (settable pi pf) (pre @ (KStr name, v) # post)"
    and "KStr name \<notin> fst ` set post"
    and "name \<noteq> ''name''"
  shows "getattr r' name = attribute_value pi pf name v"
proof -
  from assms(1) obtain r1 where r1: "set_attributes pi pf r pre = Inr r1"
    and rest: "set_attributes pi pf r1 ((KStr name, v) # post) = Inr r'"
    by (auto simp: set_attributes_append split: sum.splits)
  from assms(2) have st: "settable pi pf (KStr name, v)" and post: "list_all (settable pi pf) post"
    by simp_all
  from setattr_settable[OF st, of r1] obtain x
    where av: "attribute_value pi pf name v = Inr x"
      and x: "setattr pi pf r1 (KStr name) v = Inr (r1(attr_slot name \<mapsto> x))" by blast
  with rest assms(4) have p: "set_attributes pi pf (r1(attr_slot name \<mapsto> x)) post = Inr r'"
    by simp
  have nres: "name \<notin> set reserved_names" using st by (simp add: settable_def)
  have "attr_slot nm \<noteq> attr_slot name" if "KStr nm \<in> fst ` set post" for nm
  proof -
    from that obtain w where "(KStr nm, w) \<in> set post" by auto
    with post have "settable pi pf (KStr nm, w)" by (auto simp: list_all_iff)
    then have "nm \<notin> set reserved_names" by (simp add: settable_def)
    moreover have "nm \<noteq> name" using that assms(3) by auto
    ultimately show ?thesis using nres attr_slot_inj by blast
  qed
  with set_attributes_frame[OF p post, of "attr_slot name"]
  have "r' (attr_slot name) = Some x" by auto
  with av show ?thesis by (simp add: getattr_slot)
qed


lemma pop_dict:
  "h a = ODict d \<Longrightarrow>
   pop h (VRef a) key dflt
     = Inr (case map_of d key of None \<Rightarrow> dflt | Some v \<Rightarrow> v, h(a := ODict (AList.delete key d)))"
proof (cases "map_of d key")
  case None
  then have "key \<notin> fst ` set d" by (simp add: map_of_eq_None_iff)
  then have "AList.delete key d = d" by simp
  moreover assume "h a = ODict d"
  ultimately show ?thesis using None by (simp add: pop_def fun_upd_idem)
next
  case (Some v)
  moreover assume "h a = ODict d"
  ultimately show ?thesis by (simp add: pop_def)
qed

lemma call_response_present:
  assumes "translate ts h [VRef a] = Inr h1" and "h1 a = ODict d" and "d \<noteq> []" and "a < n"
    and "map_of d (KStr ''response'') = Some (VRef b)" and "b \<noteq> a" and "b < n"
    and "h1 b = ODict rd"
  shows "\<exists>R H N. call pi pf ts (h, n) (VRef a) params query
        = (case set_attributes pi pf R
                  (AList.delete (KStr ''docs'') rd
                   @ AList.delete (KStr ''response'') (AList.delete (KStr ''responseHeader'') d)) of
             Inl e \<Rightarrow> Inl (e, (H, N))
           | Inr r' \<Rightarrow> Inr (Some r', (H, N)))
      \<and> R ''header'' = Some (case map_of d (KStr ''responseHeader'') of None \<Rightarrow> VNone | Some v \<Rightarrow> v)
      \<and> (case map_of rd (KStr ''docs'') of
            Some v \<Rightarrow> R ''results'' = Some v
          | None \<Rightarrow> \<exists>f. R ''results'' = Some (VRef f) \<and> H f = OList [])
      \<and> R ''name'' = None
      \<and> (\<forall>c<n. c \<noteq> a \<longrightarrow> c \<noteq> b \<longrightarrow> H c = h1 c)"
proof -
  have t: "truthy h1 (VRef a)" using assms(2,3) by (simp add: truthy_def)
  have ne: "a \<noteq> n" "a \<noteq> Suc n" "a \<noteq> Suc (Suc n)" "a \<noteq> Suc (Suc (Suc n))"
      "a \<noteq> Suc (Suc (Suc (Suc n)))" "a \<noteq> Suc (Suc (Suc (Suc (Suc n))))"
      "b \<noteq> n" "b \<noteq> Suc n" "b \<noteq> Suc (Suc n)" "b \<noteq> Suc (Suc (Suc n))"
      "b \<noteq> Suc (Suc (Suc (Suc n)))" "b \<noteq> Suc (Suc (Suc (Suc (Suc n))))"
    using assms(4,7) by simp_all
  have resp: "map_of (AList.delete (KStr ''responseHeader'') d) (KStr ''response'') = Some (VRef b)"
    using assms(5) by (simp add: delete_conv')
  show ?thesis
  proof (cases "truthy (h1(n := ODict [], Suc n := OList [], Suc (Suc n) := ODict [])) params")
    case True
    show ?thesis
      using assms(1,2,6,8) t ne resp True
      apply (simp add: call_def Response_init_def alloc_def set_params_def pop_dict
          dict_items_def Let_def)
      apply (intro exI conjI)
          apply (rule refl)
         apply simp
        apply (simp split: option.splits)
       apply simp
      apply simp
      done
  next
    case False
    show ?thesis
      using assms(1,2,6,8) t ne resp False
      apply (simp add: call_def Response_init_def alloc_def set_params_def pop_dict
          dict_items_def Let_def)
      apply (intro exI conjI)
          apply (rule refl)
         apply simp
        apply (simp split: option.splits)
       apply simp
      apply simp
      done
  qed
qed


lemma call_response_absent:
  assumes "translate ts h [VRef a] = Inr h1" and "h1 a = ODict d" and "d \<noteq> []" and "a < n"
    and "map_of d (KStr ''response'') = None"
  shows "\<exists>R H N. call pi pf ts (h, n) (VRef a) params query
        = (case set_attributes pi pf R
                  (AList.delete (KStr ''response'') (AList.delete (KStr ''responseHeader'') d)) of
             Inl e \<Rightarrow> Inl (e, (H, N))
           | Inr r' \<Rightarrow> Inr (Some r', (H, N)))
      \<and> R ''header'' = Some (case map_of d (KStr ''responseHeader'') of None \<Rightarrow> VNone | Some v \<Rightarrow> v)
      \<and> (\<exists>f. R ''results'' = Some (VRef f) \<and> H f = OList [])
      \<and> R ''name'' = None
      \<and> (\<forall>c<n. c \<noteq> a \<longrightarrow> H c = h1 c)"
proof -
  have t: "truthy h1 (VRef a)" using assms(2,3) by (simp add: truthy_def)
  have ne: "a \<noteq> n" "a \<noteq> Suc n" "a \<noteq> Suc (Suc n)" "a \<noteq> Suc (Suc (Suc n))"
      "a \<noteq> Suc (Suc (Suc (Suc n)))" "a \<noteq> Suc (Suc (Suc (Suc (Suc n))))"
    using assms(4) by simp_all
  have resp: "map_of (AList.delete (KStr ''responseHeader'') d) (KStr ''response'') = None"
    using assms(5) by (simp add: delete_conv')
  show ?thesis
  proof (cases "truthy (h1(n := ODict [], Suc n := OList [], Suc (Suc n) := ODict [])) params")
    case True
    show ?thesis
      using assms(1,2) t ne resp True
      apply (simp add: call_def Response_init_def alloc_def set_params_def pop_dict
          dict_items_def Let_def)
      apply (intro exI conjI)
           apply (rule refl)
          apply simp
         apply simp
        apply simp
       apply simp
      apply simp
      done
  next
    case False
    show ?thesis
      using assms(1,2) t ne resp False
      apply (simp add: call_def Response_init_def alloc_def set_params_def pop_dict
          dict_items_def Let_def)
      apply (intro exI conjI)
           apply (rule refl)
          apply simp
         apply simp
        apply simp
       apply simp
      apply simp
      done
  qed
qed


lemma attr_slot_own:
  assumes "a \<notin> set reserved_names"
  shows "attr_slot a \<noteq> ''header''" and "attr_slot a \<noteq> ''results''"
    and "a \<noteq> ''name'' \<Longrightarrow> attr_slot a \<noteq> ''name''"
proof -
  have r: "''header'' \<in> set reserved_names" "''results'' \<in> set reserved_names"
    "''name'' \<notin> set reserved_names"
    by (simp_all add: reserved_names_def)
  have p: "attr_slot a \<noteq> ''header'' \<and> attr_slot a \<noteq> ''results'' \<and> attr_slot a \<noteq> ''name''"
    if "property_name a"
    using that unfolding property_name_def
    by (elim disjE) (simp_all add: attr_slot_def)
  show "attr_slot a \<noteq> ''header''" "attr_slot a \<noteq> ''results''"
    using assms r p by (cases "property_name a"; auto simp: attr_slot_plain)+
  show "attr_slot a \<noteq> ''name''" if "a \<noteq> ''name''"
    using that p by (cases "property_name a") (auto simp: attr_slot_plain)
qed

lemma in_delete: "x \<in> set (AList.delete k al) \<longleftrightarrow> x \<in> set al \<and> fst x \<noteq> k"
  by (auto simp: AList.delete_eq)

lemma distinct_split:
  assumes "distinct (map fst al)" and "(k, v) \<in> set al"
  shows "\<exists>pre post. al = pre @ (k, v) # post \<and> k \<notin> fst ` set post"
proof -
  from assms(2) obtain pre post where al: "al = pre @ (k, v) # post"
    by (auto dest: split_list)
  with assms(1) have "k \<notin> fst ` set post" by auto
  with al show ?thesis by blast
qed

text \<open>
  C3, as stated, fails in three ways.  A decoded list that is not empty is true, and the
  parser raises \<^verbatim>\<open>TypeError\<close> at \<^verbatim>\<open>obj.pop('responseHeader', None)\<close> instead of building a
  response.  A top-level key \<^verbatim>\<open>results\<close> overwrites the documents that were popped into
  \<open>results\<close>.  A \<^verbatim>\<open>numFound\<close> that \<^verbatim>\<open>int\<close> rejects makes the setter of the property raise, and
  no response is built.
\<close>

theorem response_counterexample:
  "truthy (fixture(0 := OList [VInt 1])) (VRef 0)
   \<and> call Inr Inr [] (fixture(0 := OList [VInt 1]), 7) (VRef 0) (VRef 2) VNone
       = Inl (TypeError,
           (fixture(0 := OList [VInt 1], 7 := ODict [], 8 := OList [], 9 := ODict []), 10))
   \<and> truthy (fixture(0 := ODict [(KStr ''response'', VRef 3), (KStr ''results'', VStr ''x'')])) (VRef 0)
   \<and> getattr (the (fst (projr
         (call Inr Inr [] (fixture(0 := ODict [(KStr ''response'', VRef 3), (KStr ''results'', VStr ''x'')]), 7)
            (VRef 0) (VRef 2) VNone)))) ''results''
       = Inr (VStr ''x'')
   \<and> truthy (fixture(3 := ODict [(KStr ''numFound'', VNone), (KStr ''docs'', VRef 4)])) (VRef 0)
   \<and> int_of_number VNone = Inl TypeError
   \<and> isl (call int_of_number Inr []
         (fixture(3 := ODict [(KStr ''numFound'', VNone), (KStr ''docs'', VRef 4)]), 7)
         (VRef 0) (VRef 2) VNone)"
  by (simp add: truthy_def call_def Response_init_def alloc_def set_params_def pop_def fixture_def
        dict_items_def setattr_def getattr_def int_of_number_def)

text \<open>
  C3, amended.  Let the translators have completed and let the decoded object then be a
  mapping that is not empty, whose \<^verbatim>\<open>response\<close> entry, if there is one, is a mapping, and
  whose remaining entries can be set as attributes of their own.  Then the parser builds a
  response whose \<open>header\<close> is the value of \<^verbatim>\<open>responseHeader\<close> (\<^verbatim>\<open>None\<close> if absent) and whose
  \<open>results\<close> is the value of \<^verbatim>\<open>docs\<close> in the response mapping (a new empty list if absent).
  Every remaining entry of the top mapping but \<^verbatim>\<open>name\<close> is an attribute of the response, and so
  is every remaining entry of the response mapping but \<^verbatim>\<open>name\<close> that the top mapping does not
  override; the properties hold the converted value.  No attribute \<^verbatim>\<open>name\<close> is set.  The
  objects of the store other than the two mappings that entries are popped from are as the
  translators left them: with no translators, as they were decoded.
\<close>

theorem call_builds_response:
  assumes "translate translators h [VRef a] = Inr h1"
    and "h1 a = ODict d" and "d \<noteq> []" and "a < n"
    and "(map_of d (KStr ''response'') = None \<and> rd = [])
         \<or> (\<exists>b<n. b \<noteq> a \<and> map_of d (KStr ''response'') = Some (VRef b) \<and> h1 b = ODict rd)"
    and "distinct (map fst d)" and "distinct (map fst rd)"
    and "list_all (settable py_int py_float)
           (AList.delete (KStr ''docs'') rd
            @ AList.delete (KStr ''response'') (AList.delete (KStr ''responseHeader'') d))"
  shows "\<exists>r h' n'.
      call py_int py_float translators (h, n) (VRef a) params query = Inr (Some r, (h', n'))
      \<and> getattr r ''header''
          = Inr (case map_of d (KStr ''responseHeader'') of None \<Rightarrow> VNone | Some v \<Rightarrow> v)
      \<and> (case map_of rd (KStr ''docs'') of
            Some v \<Rightarrow> getattr r ''results'' = Inr v
          | None \<Rightarrow> \<exists>f. getattr r ''results'' = Inr (VRef f) \<and> h' f = OList [])
      \<and> (\<forall>name v. map_of d (KStr name) = Some v \<longrightarrow>
            name \<notin> set [''responseHeader'', ''response'', ''name''] \<longrightarrow>
            getattr r name = attribute_value py_int py_float name v)
      \<and> (\<forall>name v. map_of rd (KStr name) = Some v \<longrightarrow>
            name \<notin> set [''docs'', ''name''] \<longrightarrow>
            map_of d (KStr name) = None \<or> name \<in> set [''responseHeader'', ''response''] \<longrightarrow>
            getattr r name = attribute_value py_int py_float name v)
      \<and> getattr r ''name'' = Inl AttributeError
      \<and> (\<forall>c<n. c \<noteq> a \<longrightarrow> map_of d (KStr ''response'') \<noteq> Some (VRef c) \<longrightarrow> h' c = h1 c)
      \<and> (translators = [] \<longrightarrow> h1 = h)"
proof -
  let ?kvs1 = "AList.delete (KStr ''docs'') rd"
  let ?kvs2 = "AList.delete (KStr ''response'') (AList.delete (KStr ''responseHeader'') d)"
  let ?its = "?kvs1 @ ?kvs2"
  let ?header = "case map_of d (KStr ''responseHeader'') of None \<Rightarrow> VNone | Some v \<Rightarrow> v"
  have "\<exists>R H N. call py_int py_float translators (h, n) (VRef a) params query
        = (case set_attributes py_int py_float R ?its of
             Inl e \<Rightarrow> Inl (e, (H, N))
           | Inr r' \<Rightarrow> Inr (Some r', (H, N)))
      \<and> R ''header'' = Some ?header
      \<and> (case map_of rd (KStr ''docs'') of
            Some v \<Rightarrow> R ''results'' = Some v
          | None \<Rightarrow> \<exists>f. R ''results'' = Some (VRef f) \<and> H f = OList [])
      \<and> R ''name'' = None
      \<and> (\<forall>c<n. c \<noteq> a \<longrightarrow> map_of d (KStr ''response'') \<noteq> Some (VRef c) \<longrightarrow> H c = h1 c)"
    using assms(5)
  proof
    assume "map_of d (KStr ''response'') = None \<and> rd = []"
    with call_response_absent[OF assms(1-4), of py_int py_float params query]
    show ?thesis by auto
  next
    assume "\<exists>b<n. b \<noteq> a \<and> map_of d (KStr ''response'') = Some (VRef b) \<and> h1 b = ODict rd"
    then obtain b where b: "b < n" "b \<noteq> a" "map_of d (KStr ''response'') = Some (VRef b)"
      "h1 b = ODict rd" by blast
    from call_response_present[OF assms(1-4) b(3,2,1,4), of py_int py_float params query] b(3)
    show ?thesis by auto
  qed
  then obtain R H N where call: "call py_int py_float translators (h, n) (VRef a) params query
        = (case set_attributes py_int py_float R ?its of
             Inl e \<Rightarrow> Inl (e, (H, N))
           | Inr r' \<Rightarrow> Inr (Some r', (H, N)))"
    and header: "R ''header'' = Some ?header"
    and results: "case map_of rd (KStr ''docs'') of
            Some v \<Rightarrow> R ''results'' = Some v
          | None \<Rightarrow> \<exists>f. R ''results'' = Some (VRef f) \<and> H f = OList []"
    and name: "R ''name'' = None"
    and frame: "\<forall>c<n. c \<noteq> a \<longrightarrow> map_of d (KStr ''response'') \<noteq> Some (VRef c) \<longrightarrow> H c = h1 c"
    by blast
  from set_attributes_ok[OF assms(8), of R] obtain r
    where r: "set_attributes py_int py_float R ?its = Inr r" by blast
  have nres: "nm \<notin> set reserved_names" if "KStr nm \<in> fst ` set ?its" for nm
  proof -
    from that obtain p where p: "p \<in> set ?its" "fst p = KStr nm"
      unfolding image_iff by metis
    from assms(8) p(1) have "settable py_int py_float p"
      unfolding list_all_iff by blast
    with p(2) show ?thesis by (simp add: settable_def)
  qed
  have keep: "r s = R s"
    if "\<And>nm. nm \<notin> set reserved_names \<Longrightarrow> nm \<noteq> ''name'' \<Longrightarrow> attr_slot nm \<noteq> s" for s
    using set_attributes_frame[OF r assms(8), of s] that nres by blast
  have r_header: "r ''header'' = R ''header''"
    by (rule keep) (rule attr_slot_own)
  have r_results: "r ''results'' = R ''results''"
    by (rule keep) (rule attr_slot_own)
  have r_name: "r ''name'' = R ''name''"
    by (rule keep) (rule attr_slot_own)
  have c1: "call py_int py_float translators (h, n) (VRef a) params query = Inr (Some r, (H, N))"
    using call r by simp
  have c2: "getattr r ''header'' = Inr ?header"
    using r_header header by (simp add: getattr_def)
  have c3: "case map_of rd (KStr ''docs'') of
            Some v \<Rightarrow> getattr r ''results'' = Inr v
          | None \<Rightarrow> \<exists>f. getattr r ''results'' = Inr (VRef f) \<and> H f = OList []"
    using r_results results by (auto simp: getattr_def split: option.splits)
  have d2: "distinct (map fst ?kvs2)" using assms(6) by (simp add: distinct_delete)
  have d1: "distinct (map fst ?kvs1)" using assms(7) by (simp add: distinct_delete)
  have c4: "getattr r name = attribute_value py_int py_float name v"
    if "map_of d (KStr name) = Some v"
      and "name \<notin> set [''responseHeader'', ''response'', ''name'']" for name v
  proof -
    from that have "(KStr name, v) \<in> set ?kvs2"
      by (auto simp: in_delete dest: map_of_SomeD)
    from distinct_split[OF d2 this] obtain pre post
      where sp: "?kvs2 = pre @ (KStr name, v) # post" and np: "KStr name \<notin> fst ` set post"
      by blast
    have its: "?its = (?kvs1 @ pre) @ (KStr name, v) # post"
      by (simp only: sp append_assoc)
    from r assms(8) have "set_attributes py_int py_float R ((?kvs1 @ pre) @ (KStr name, v) # post) = Inr r"
      and "list_all (settable py_int py_float) ((?kvs1 @ pre) @ (KStr name, v) # post)"
      by (simp_all only: its)
    from set_attributes_entry[OF this np] that(2) show ?thesis by simp
  qed
  have c5: "getattr r name = attribute_value py_int py_float name v"
    if "map_of rd (KStr name) = Some v" and "name \<notin> set [''docs'', ''name'']"
      and "map_of d (KStr name) = None \<or> name \<in> set [''responseHeader'', ''response'']" for name v
  proof -
    from that(1,2) have "(KStr name, v) \<in> set ?kvs1"
      by (auto simp: in_delete dest: map_of_SomeD)
    from distinct_split[OF d1 this] obtain pre post
      where sp: "?kvs1 = pre @ (KStr name, v) # post" and np: "KStr name \<notin> fst ` set post"
      by blast
    have "KStr name \<notin> fst ` set ?kvs2"
      using that(3) by (auto simp: in_delete map_of_eq_None_iff)
    with np have np': "KStr name \<notin> fst ` set (post @ ?kvs2)" by auto
    have its: "?its = pre @ (KStr name, v) # (post @ ?kvs2)"
      by (simp only: sp append_assoc append_Cons)
    from r assms(8) have "set_attributes py_int py_float R (pre @ (KStr name, v) # (post @ ?kvs2)) = Inr r"
      and "list_all (settable py_int py_float) (pre @ (KStr name, v) # (post @ ?kvs2))"
      by (simp_all only: its)
    from set_attributes_entry[OF this np'] that(2) show ?thesis by simp
  qed
  have c6: "getattr r ''name'' = Inl AttributeError"
    using r_name name by (simp add: getattr_def)
  have c8: "translators = [] \<longrightarrow> h1 = h" using assms(1) by auto
  show ?thesis
    using c1 c2 c3 c4 c5 c6 frame c8 by blast
qed


theorem call_builds_response_witness:
  "translate [] fixture_extra [VRef 0] = Inr fixture_extra
   \<and> fixture_extra 0 = ODict [(KStr ''responseHeader'', VRef 1), (KStr ''response'', VRef 3),
                  (KStr ''termVectors'', VStr ''some data''), (KStr ''name'', VStr ''noise'')]
   \<and> fixture_extra 3 = ODict [(KStr ''numFound'', VInt 2), (KStr ''start'', VInt 0), (KStr ''docs'', VRef 4)]
   \<and> list_all (settable Inr Inr)
        [(KStr ''numFound'', VInt 2), (KStr ''start'', VInt 0),
         (KStr ''termVectors'', VStr ''some data''), (KStr ''name'', VStr ''noise'')]
   \<and> (\<exists>r h' n'.
        call Inr Inr [] (fixture_extra, 7) (VRef 0) VNone (VOther True 0) = Inr (Some r, (h', n'))
        \<and> getattr r ''header'' = Inr (VRef 1)
        \<and> getattr r ''results'' = Inr (VRef 4)
        \<and> getattr r ''numFound'' = Inr (VInt 2)
        \<and> getattr r ''start'' = Inr (VInt 0)
        \<and> getattr r ''termVectors'' = Inr (VStr ''some data'')
        \<and> getattr r ''name'' = Inl AttributeError
        \<and> h' 4 = fixture_extra 4 \<and> h' 5 = fixture_extra 5 \<and> h' 6 = fixture_extra 6)"
proof -
  let ?d = "[(KStr ''responseHeader'', VRef 1), (KStr ''response'', VRef 3),
             (KStr ''termVectors'', VStr ''some data''), (KStr ''name'', VStr ''noise'')]"
  let ?rd = "[(KStr ''numFound'', VInt 2), (KStr ''start'', VInt 0), (KStr ''docs'', VRef 4)]"
  have 1: "translate [] fixture_extra [VRef 0] = Inr fixture_extra" by simp
  have 2: "fixture_extra 0 = ODict ?d" by (simp add: fixture_extra_def)
  have 3: "?d \<noteq> []" by simp
  have 4: "(0::nat) < 7" by simp
  have rd: "fixture_extra 3 = ODict ?rd" by (simp add: fixture_extra_def fixture_def)
  have 5: "(map_of ?d (KStr ''response'') = None \<and> ?rd = [])
         \<or> (\<exists>b<7. b \<noteq> 0 \<and> map_of ?d (KStr ''response'') = Some (VRef b)
                \<and> fixture_extra b = ODict ?rd)"
    using rd by simp
  have 6: "distinct (map fst ?d)" by simp
  have 7: "distinct (map fst ?rd)" by simp
  have st: "list_all (settable Inr Inr)
        [(KStr ''numFound'', VInt 2), (KStr ''start'', VInt 0),
         (KStr ''termVectors'', VStr ''some data''), (KStr ''name'', VStr ''noise'')]"
    by (simp add: settable_def reserved_names_def)
  then have 8: "list_all (settable Inr Inr)
           (AList.delete (KStr ''docs'') ?rd
            @ AList.delete (KStr ''response'') (AList.delete (KStr ''responseHeader'') ?d))"
    by simp
  from call_builds_response[OF 1 2 3 4 5 6 7 8, of VNone "VOther True 0"]
  obtain r h' n' where
    c: "call Inr Inr [] (fixture_extra, 7) (VRef 0) VNone (VOther True 0) = Inr (Some r, (h', n'))"
    and hd: "getattr r ''header''
          = Inr (case map_of ?d (KStr ''responseHeader'') of None \<Rightarrow> VNone | Some v \<Rightarrow> v)"
    and res: "case map_of ?rd (KStr ''docs'') of
            Some v \<Rightarrow> getattr r ''results'' = Inr v
          | None \<Rightarrow> \<exists>f. getattr r ''results'' = Inr (VRef f) \<and> h' f = OList []"
    and outer: "\<forall>name v. map_of ?d (KStr name) = Some v \<longrightarrow>
            name \<notin> set [''responseHeader'', ''response'', ''name''] \<longrightarrow>
            getattr r name = attribute_value Inr Inr name v"
    and inner: "\<forall>name v. map_of ?rd (KStr name) = Some v \<longrightarrow>
            name \<notin> set [''docs'', ''name''] \<longrightarrow>
            map_of ?d (KStr name) = None \<or> name \<in> set [''responseHeader'', ''response''] \<longrightarrow>
            getattr r name = attribute_value Inr Inr name v"
    and nm: "getattr r ''name'' = Inl AttributeError"
    and fr: "\<forall>c<7. c \<noteq> 0 \<longrightarrow> map_of ?d (KStr ''response'') \<noteq> Some (VRef c) \<longrightarrow> h' c = fixture_extra c"
    by blast
  have a1: "getattr r ''header'' = Inr (VRef 1)" using hd by simp
  have a2: "getattr r ''results'' = Inr (VRef 4)" using res by simp
  have a3: "getattr r ''numFound'' = Inr (VInt 2)"
    using inner[rule_format, of "''numFound''" "VInt 2"] by (simp add: attribute_value_def)
  have a4: "getattr r ''start'' = Inr (VInt 0)"
    using inner[rule_format, of "''start''" "VInt 0"] by (simp add: attribute_value_def)
  have a5: "getattr r ''termVectors'' = Inr (VStr ''some data'')"
    using outer[rule_format, of "''termVectors''" "VStr ''some data''"]
    by (simp add: attribute_value_def)
  have a6: "h' 4 = fixture_extra 4" "h' 5 = fixture_extra 5" "h' 6 = fixture_extra 6"
    using fr by simp_all
  show ?thesis
    using 1 2 rd st c a1 a2 a3 a4 a5 nm a6 by blast
qed

end
